theory Spec2Isabelle
  imports Main "HOL-Library.Multiset" "HOL-Library.Log_Nat"
begin

section \<open>Sorting visualisation: data model\<close>

text \<open>
  The five keys of the \<^verbatim>\<open>sortStates\<close> object of
  \<^verbatim>\<open>static/js/sorting-visualization.js\<close>.
\<close>

datatype variant = Bubble | Selection | Insertion | Quick | Merge

definition ARRAY_SIZE :: nat where
  "ARRAY_SIZE = 20"

definition MIN_VALUE :: int where
  "MIN_VALUE = 5"

definition MAX_VALUE :: int where
  "MAX_VALUE = 95"

record sort_state =
  array :: "int list"
  isSorting :: bool
  currentStep :: int

text \<open>
  A call \<^verbatim>\<open>createBars(type, array, highlights)\<close> redraws the bars of one
  variant. What it draws is a function of its three arguments only, so a call is recorded
  as the triple of its arguments (the array as it is at the moment of the call), appended
  to the list of all calls made so far. Whether the page has a container for the bars is
  left to the page.
\<close>

type_synonym render = "variant \<times> int list \<times> nat list"

definition createBars :: "variant \<Rightarrow> int list \<Rightarrow> nat list \<Rightarrow> render list \<Rightarrow> render list" where
  "createBars type arr highlights screen = screen @ [(type, arr, highlights)]"

section \<open>The three sort procedures\<close>

text \<open>
  Each procedure works on the array in place and, after a write, calls
  \<^verbatim>\<open>createBars\<close> and waits for the animation delay. The functions below thread
  the array and the list of render calls through the loops; every render call of the
  source is followed by exactly one wait, so the render list is also the list of the
  points at which the procedure is suspended.
\<close>

subsection \<open>Bubble sort\<close>

text \<open>The \<^verbatim>\<open>for\<close> loop of one pass, entered at index \<open>i\<close>.\<close>

function bubble_for :: "nat \<Rightarrow> nat \<Rightarrow> int list \<Rightarrow> bool \<Rightarrow> render list \<Rightarrow> int list \<times> bool \<times> render list" where
  "bubble_for n i arr swapped screen =
     (if int i < int n - 1 then
        (if arr ! i > arr ! (i + 1) then
           (let arr' = arr[i := arr ! (i + 1), i + 1 := arr ! i] in
            bubble_for n (i + 1) arr' True (createBars Bubble arr' [i, i + 1] screen))
         else bubble_for n (i + 1) arr swapped screen)
      else (arr, swapped, screen))"
  by pat_completeness auto
termination
  by (relation "measure (\<lambda>(n, i, arr, swapped, screen). n - i)") auto

declare bubble_for.simps [simp del]

text \<open>
  The \<^verbatim>\<open>do ... while (swapped)\<close> loop. Nothing in its form bounds the number of
  passes, so it is a partial function: \<open>None\<close> is a run that never ends.
\<close>

partial_function (option) bubble_do :: "nat \<Rightarrow> int list \<Rightarrow> render list \<Rightarrow> (int list \<times> render list) option" where
  "bubble_do n arr screen =
     (case bubble_for n 0 arr False screen of
        (arr', swapped, screen') \<Rightarrow>
          if swapped then bubble_do n arr' screen' else Some (arr', screen'))"

declare bubble_do.simps [code]

definition bubbleSort :: "int list \<Rightarrow> (int list \<times> render list) option" where
  "bubbleSort arr = bubble_do (length arr) arr []"

subsection \<open>Selection sort\<close>

text \<open>The inner loop over \<open>j\<close>, which looks for the index of the least element.\<close>

function selection_scan :: "nat \<Rightarrow> nat \<Rightarrow> int list \<Rightarrow> nat \<Rightarrow> nat" where
  "selection_scan n j arr minIndex =
     (if j < n then
        (if arr ! j < arr ! minIndex then selection_scan n (j + 1) arr j
         else selection_scan n (j + 1) arr minIndex)
      else minIndex)"
  by pat_completeness auto
termination
  by (relation "measure (\<lambda>(n, j, arr, minIndex). n - j)") auto

declare selection_scan.simps [simp del]

text \<open>The body of the outer loop at position \<open>i\<close>.\<close>

definition selection_body :: "nat \<Rightarrow> nat \<Rightarrow> int list \<times> render list \<Rightarrow> int list \<times> render list" where
  "selection_body n i st =
     (case st of (arr, screen) \<Rightarrow>
        (let minIndex = selection_scan n (i + 1) arr i in
         if minIndex \<noteq> i then
           (let arr' = arr[i := arr ! minIndex, minIndex := arr ! i] in
            (arr', createBars Selection arr' [i, minIndex] screen))
         else (arr, screen)))"

function selection_for :: "nat \<Rightarrow> nat \<Rightarrow> int list \<times> render list \<Rightarrow> int list \<times> render list" where
  "selection_for n i st =
     (if int i < int n - 1 then selection_for n (i + 1) (selection_body n i st) else st)"
  by pat_completeness auto
termination
  by (relation "measure (\<lambda>(n, i, st). n - i)") auto

declare selection_for.simps [simp del]

definition selectionSort :: "int list \<Rightarrow> int list \<times> render list" where
  "selectionSort arr = selection_for (length arr) 0 (arr, [])"

subsection \<open>Insertion sort\<close>

text \<open>
  The \<^verbatim>\<open>while\<close> loop that shifts elements to the right. The index \<open>j\<close> is an
  integer: the loop leaves it at \<open>-1\<close> when the key belongs at the front.
\<close>

function insertion_while :: "int \<Rightarrow> int \<Rightarrow> int list \<Rightarrow> render list \<Rightarrow> int \<times> int list \<times> render list" where
  "insertion_while key j arr screen =
     (if j \<ge> 0 \<and> arr ! nat j > key then
        (let arr' = arr[nat (j + 1) := arr ! nat j] in
         insertion_while key (j - 1) arr' (createBars Insertion arr' [nat j, nat (j + 1)] screen))
      else (j, arr, screen))"
  by pat_completeness auto
termination
  by (relation "measure (\<lambda>(key, j, arr, screen). nat (j + 1))") auto

declare insertion_while.simps [simp del]

text \<open>The body of the outer loop at position \<open>i\<close>.\<close>

definition insertion_body :: "nat \<Rightarrow> int list \<times> render list \<Rightarrow> int list \<times> render list" where
  "insertion_body i st =
     (case st of (arr, screen) \<Rightarrow>
        (let key = arr ! i in
         case insertion_while key (int i - 1) arr screen of
           (j, arr1, screen1) \<Rightarrow>
             if arr1 ! nat (j + 1) \<noteq> key then
               (let arr2 = arr1[nat (j + 1) := key] in
                (arr2, createBars Insertion arr2 [nat (j + 1)] screen1))
             else (arr1, screen1)))"

function insertion_for :: "nat \<Rightarrow> nat \<Rightarrow> int list \<times> render list \<Rightarrow> int list \<times> render list" where
  "insertion_for n i st =
     (if i < n then insertion_for n (i + 1) (insertion_body i st) else st)"
  by pat_completeness auto
termination
  by (relation "measure (\<lambda>(n, i, st). n - i)") auto

declare insertion_for.simps [simp del]

definition insertionSort :: "int list \<Rightarrow> int list \<times> render list" where
  "insertionSort arr = insertion_for (length arr) 1 (arr, [])"

text \<open>
  The sort procedures that the file defines. For quick and merge there is a record in
  \<^verbatim>\<open>sortStates\<close> and nothing else: no procedure and no button handler.
\<close>

definition sortProcedure :: "variant \<Rightarrow> (int list \<Rightarrow> (int list \<times> render list) option) option" where
  "sortProcedure type =
     (case type of
        Bubble \<Rightarrow> Some bubbleSort
      | Selection \<Rightarrow> Some (\<lambda>arr. Some (selectionSort arr))
      | Insertion \<Rightarrow> Some (\<lambda>arr. Some (insertionSort arr))
      | Quick \<Rightarrow> None
      | Merge \<Rightarrow> None)"

section \<open>The array generator\<close>

subsection \<open>Numbers\<close>

text \<open>
  A JavaScript Number is an IEEE 754 double. A finite one is written here as
  \<open>mantissa * 2 ^ exponent\<close> with integers \<open>mantissa\<close> and \<open>exponent\<close>; it is a double
  when \<open>\<bar>mantissa\<bar> < 2 ^ 53\<close> and \<open>- 1074 \<le> exponent\<close> (and it is below \<open>2 ^ 1024\<close>).
  Every arithmetic operation returns the exact result rounded to the nearest double,
  ties to the even mantissa.
\<close>

datatype number = Number (mantissa: int) (exponent: int)

text \<open>The integer nearest to \<open>a / 2 ^ s\<close> for \<open>a \<ge> 0\<close>, ties to the even one.\<close>

definition round_even :: "int \<Rightarrow> nat \<Rightarrow> int" where
  "round_even a s =
     (let q = a div 2 ^ s; r = a mod 2 ^ s in
      if 2 * r < 2 ^ s then q
      else if 2 * r > 2 ^ s then q + 1
      else if even q then q else q + 1)"

text \<open>
  The double nearest to the exact value \<open>a * 2 ^ e\<close>: a mantissa of more than \<open>53\<close> bits
  is rounded to \<open>53\<close> bits. For \<open>- 1074 \<le> e\<close> this is the rounding of IEEE 754: a value
  whose mantissa is rounded here is at least \<open>2 ^ (- 1021)\<close>, a normal number. A result
  of \<open>2 ^ 1024\<close> or more would be \<^verbatim>\<open>Infinity\<close>; no value computed from the constants
  of the file comes near it, and this case is left out.
\<close>

definition to_double :: "int \<Rightarrow> int \<Rightarrow> number" where
  "to_double a e =
     (let s = bitlen \<bar>a\<bar> - 53 in
      if s \<le> 0 then Number a e
      else Number (sgn a * round_even \<bar>a\<bar> (nat s)) (e + s))"

text \<open>
  \<^verbatim>\<open>Math.floor\<close>, which is exact, with its result as an integer; and the integer
  that the result of an operation on integers is, after rounding.
\<close>

definition math_floor :: "number \<Rightarrow> int" where
  "math_floor x =
     (if exponent x \<ge> 0 then mantissa x * 2 ^ nat (exponent x)
      else mantissa x div 2 ^ nat (- exponent x))"

definition double_int :: "int \<Rightarrow> int" where
  "double_int z = math_floor (to_double z 0)"

text \<open>
  A Number that \<^verbatim>\<open>Math.random()\<close> can return: a double \<open>r\<close> with \<open>0 \<le> r < 1\<close>.
\<close>

definition unit_double :: "number \<Rightarrow> bool" where
  "unit_double r \<longleftrightarrow>
     0 \<le> mantissa r \<and> mantissa r < 2 ^ 53 \<and> - 1074 \<le> exponent r \<and>
     (mantissa r = 0 \<or> (exponent r < 0 \<and> mantissa r < 2 ^ nat (- exponent r)))"

subsection \<open>The generator\<close>

text \<open>
  The Numbers that \<^verbatim>\<open>Math.random()\<close> will return next are the parameter \<open>rnd\<close>;
  the three configuration constants are passed explicitly.
  \<^verbatim>\<open>Array.from({ length: n }, f)\<close> calls \<open>f\<close> once for each index from \<open>0\<close> to
  \<open>n - 1\<close>, in this order. The element is computed as the source does: the subtraction
  and the addition that give the size of the range, the product with the random
  Number, \<^verbatim>\<open>Math.floor\<close>, and the addition of the lower bound, each rounded.
\<close>

definition generateRandomArray :: "nat \<Rightarrow> int \<Rightarrow> int \<Rightarrow> (nat \<Rightarrow> number) \<Rightarrow> int list" where
  "generateRandomArray array_size min_value max_value rnd =
     map (\<lambda>k.
            double_int
              (math_floor
                 (to_double
                    (mantissa (rnd k) * double_int (double_int (max_value - min_value) + 1))
                    (exponent (rnd k)))
               + min_value))
       [0..<array_size]"

section \<open>The page: state, buttons and timers\<close>

text \<open>
  A sort procedure is an \<^verbatim>\<open>async\<close> function: it runs until its next
  \<^verbatim>\<open>await\<close>, and goes on when the timer of that wait fires. Between two waits
  nothing else runs. A procedure that is waiting is recorded with the render calls it
  will still make and the array it will leave behind; at each wait the array holds what
  the render call before it has shown, since every write of the three procedures is
  followed at once by a render call and a wait (lemmas \<open>bubbleSort_shown\<close>,
  \<open>selectionSort_shown\<close>, \<open>insertionSort_shown\<close> and \<open>reachable_runs_ok\<close> below).
  \<open>Endless\<close> stands for a run of the \<^verbatim>\<open>do ... while\<close> loop that never ends; its
  render calls are not modelled, and no page has one (lemma \<open>reachable_no_endless\<close>).
\<close>

datatype run = Run (run_type: variant) "render list" "int list" | Endless (run_type: variant)

record world =
  sortStates :: "variant \<Rightarrow> sort_state"
  screen :: "render list"
  math_random :: "nat \<Rightarrow> number"
  suspended :: "run list"

definition initial :: "(nat \<Rightarrow> number) \<Rightarrow> world" where
  "initial rnd =
     \<lparr>sortStates = (\<lambda>type. \<lparr>array = [], isSorting = False, currentStep = 0\<rparr>),
      screen = [], math_random = rnd, suspended = []\<rparr>"

definition resetArray :: "variant \<Rightarrow> world \<Rightarrow> world" where
  "resetArray type w =
     (if isSorting (sortStates w type) then w
      else
        (let arr = generateRandomArray ARRAY_SIZE MIN_VALUE MAX_VALUE (math_random w) in
         w\<lparr>sortStates := (sortStates w)(type := (sortStates w type)\<lparr>array := arr, currentStep := 0\<rparr>),
           math_random := (\<lambda>k. math_random w (k + ARRAY_SIZE)),
           screen := createBars type arr [] (screen w)\<rparr>))"

definition initializeVisualizations :: "world \<Rightarrow> world" where
  "initializeVisualizations w = fold resetArray [Bubble, Selection, Insertion, Quick, Merge] w"

text \<open>
  The click handler of a start button: the guard, the flag, and the procedure up to its
  first wait. A procedure that makes no render call returns without waiting, and the
  flag is cleared before any other handler can run.
\<close>

definition startSort :: "variant \<Rightarrow> (int list \<Rightarrow> (int list \<times> render list) option) \<Rightarrow> world \<Rightarrow> world" where
  "startSort type procedure w =
     (if isSorting (sortStates w type) then w
      else
        (case procedure (array (sortStates w type)) of
           None \<Rightarrow>
             w\<lparr>sortStates := (sortStates w)(type := (sortStates w type)\<lparr>isSorting := True\<rparr>),
               suspended := suspended w @ [Endless type]\<rparr>
         | Some (final, []) \<Rightarrow>
             w\<lparr>sortStates := (sortStates w)(type := (sortStates w type)\<lparr>array := final, isSorting := False\<rparr>)\<rparr>
         | Some (final, r # rs) \<Rightarrow>
             w\<lparr>sortStates := (sortStates w)(type := (sortStates w type)\<lparr>array := fst (snd r), isSorting := True\<rparr>),
               screen := screen w @ [r],
               suspended := suspended w @ [Run type rs final]\<rparr>))"

text \<open>
  The timer of the \<open>k\<close>-th waiting procedure fires: the procedure goes on to its next
  render call and waits again, or it returns and the handler clears the flag.
\<close>

definition resume :: "nat \<Rightarrow> world \<Rightarrow> world" where
  "resume k w =
     (if k < length (suspended w) then
        (case suspended w ! k of
           Endless type \<Rightarrow> w
         | Run type [] final \<Rightarrow>
             w\<lparr>sortStates := (sortStates w)(type := (sortStates w type)\<lparr>array := final, isSorting := False\<rparr>),
               suspended := take k (suspended w) @ drop (k + 1) (suspended w)\<rparr>
         | Run type (r # rs) final \<Rightarrow>
             w\<lparr>sortStates := (sortStates w)(type := (sortStates w type)\<lparr>array := fst (snd r)\<rparr>),
               screen := screen w @ [r],
               suspended := (suspended w)[k := Run type rs final]\<rparr>)
      else w)"

text \<open>The six buttons that \<^verbatim>\<open>setupSortButtons\<close> gives a handler.\<close>

datatype button =
  bubble_sort_start | bubble_sort_reset
  | selection_sort_start | selection_sort_reset
  | insertion_sort_start | insertion_sort_reset

datatype event = Click button | Timer nat

fun step :: "world \<Rightarrow> event \<Rightarrow> world" where
  "step w (Click bubble_sort_start) = startSort Bubble bubbleSort w"
| "step w (Click bubble_sort_reset) = resetArray Bubble w"
| "step w (Click selection_sort_start) = startSort Selection (\<lambda>arr. Some (selectionSort arr)) w"
| "step w (Click selection_sort_reset) = resetArray Selection w"
| "step w (Click insertion_sort_start) = startSort Insertion (\<lambda>arr. Some (insertionSort arr)) w"
| "step w (Click insertion_sort_reset) = resetArray Insertion w"
| "step w (Timer k) = resume k w"

text \<open>
  The states of the page: the state after \<^verbatim>\<open>DOMContentLoaded\<close>, and every state
  that clicks and timers lead to from there.
\<close>

inductive reachable :: "world \<Rightarrow> bool" where
  page_load: "reachable (initializeVisualizations (initial rnd))"
| event: "reachable w \<Longrightarrow> reachable (step w e)"

section \<open>Notions used in the statements and proofs\<close>

text \<open>
  The number of pairs of positions that are in the wrong order: the measure that a pass
  of bubble sort lowers when it swaps. \<open>bubble_inv\<close> is the invariant of a pass that
  started on \<open>arr0\<close> with the render list \<open>sc0\<close>.
\<close>

fun inversions :: "int list \<Rightarrow> nat" where
  "inversions [] = 0"
| "inversions (x # xs) = length (filter (\<lambda>y. y < x) xs) + inversions xs"

definition bubble_inv :: "nat \<Rightarrow> int list \<Rightarrow> render list \<Rightarrow> nat \<Rightarrow> int list \<Rightarrow> bool \<Rightarrow> render list \<Rightarrow> bool" where
  "bubble_inv n arr0 sc0 i a s c \<longleftrightarrow>
     length a = length arr0 \<and> mset a = mset arr0 \<and>
     (if s then inversions a < inversions arr0
      else a = arr0 \<and> c = sc0 \<and> (\<forall>k<i. int k < int n - 1 \<longrightarrow> a ! k \<le> a ! (k + 1)))"

text \<open>
  One pass of bubble sort on its own, with the array it leaves and the flag it returns.
\<close>

definition bubble_pass :: "int list \<Rightarrow> int list \<times> bool \<times> render list" where
  "bubble_pass arr = bubble_for (length arr) 0 arr False []"

definition bubble_pass_array :: "int list \<Rightarrow> int list" where
  "bubble_pass_array arr = fst (bubble_pass arr)"

definition bubble_pass_swapped :: "int list \<Rightarrow> bool" where
  "bubble_pass_swapped arr = fst (snd (bubble_pass arr))"

text \<open>
  The array and the render list of selection sort when its outer loop reaches position
  \<open>i\<close>, and the index that the inner loop finds there. \<open>scan_ok\<close> says what the inner
  loop returns; \<open>selection_inv\<close> is the invariant of the outer loop.
\<close>

definition selection_state :: "int list \<Rightarrow> nat \<Rightarrow> int list \<times> render list" where
  "selection_state arr i = fold (selection_body (length arr)) [0..<i] (arr, [])"

definition selection_min :: "int list \<Rightarrow> nat \<Rightarrow> nat" where
  "selection_min arr i = selection_scan (length arr) (i + 1) (fst (selection_state arr i)) i"

definition scan_ok :: "nat \<Rightarrow> nat \<Rightarrow> int list \<Rightarrow> nat \<Rightarrow> nat \<Rightarrow> bool" where
  "scan_ok n j arr m0 m \<longleftrightarrow>
     (m = m0 \<or> (j \<le> m \<and> m < n)) \<and> arr ! m \<le> arr ! m0 \<and>
     (\<forall>k. j \<le> k \<and> k < n \<longrightarrow> arr ! m \<le> arr ! k) \<and>
     (m \<noteq> m0 \<longrightarrow> arr ! m < arr ! m0) \<and>
     (\<forall>k. j \<le> k \<and> k < m \<longrightarrow> arr ! m < arr ! k)"

definition selection_inv :: "int list \<Rightarrow> nat \<Rightarrow> int list \<Rightarrow> bool" where
  "selection_inv arr i a \<longleftrightarrow>
     length a = length arr \<and> mset a = mset arr \<and>
     (\<forall>p q. p < q \<and> p < i \<and> q < length arr \<longrightarrow> a ! p \<le> a ! q)"

text \<open>
  The array and the render list of insertion sort when its outer loop reaches position
  \<open>i\<close>. \<open>shift_inv\<close> and \<open>trace_inv\<close> are invariants of the shift loop (on the array
  and on the render list), \<open>insertion_inv\<close> is the invariant of the outer loop.
\<close>

definition insertion_state :: "int list \<Rightarrow> nat \<Rightarrow> int list \<times> render list" where
  "insertion_state arr i = fold insertion_body [1..<i] (arr, [])"

definition shift_inv :: "nat \<Rightarrow> int list \<Rightarrow> int \<Rightarrow> int list \<Rightarrow> bool" where
  "shift_inv i a0 j a \<longleftrightarrow>
     - 1 \<le> j \<and> j < int i \<and> length a = length a0 \<and>
     (\<forall>p q. p < q \<and> q \<le> i \<and> p \<noteq> nat (j + 1) \<and> q \<noteq> nat (j + 1) \<longrightarrow> a ! p \<le> a ! q) \<and>
     (\<forall>q. nat (j + 1) < q \<and> q \<le> i \<longrightarrow> a0 ! i < a ! q) \<and>
     mset (a[nat (j + 1) := a0 ! i]) = mset a0"

definition insertion_inv :: "int list \<Rightarrow> nat \<Rightarrow> int list \<Rightarrow> bool" where
  "insertion_inv arr i a \<longleftrightarrow>
     length a = length arr \<and> mset a = mset arr \<and>
     (\<forall>p q. p < q \<and> q < i \<longrightarrow> a ! p \<le> a ! q)"

definition trace_inv :: "nat \<Rightarrow> int list \<Rightarrow> render list \<Rightarrow> int \<Rightarrow> int list \<Rightarrow> render list \<Rightarrow> bool" where
  "trace_inv i a0 c0 j a c \<longleftrightarrow>
     - 1 \<le> j \<and> j < int i \<and>
     (if j = int i - 1 then a = a0 \<and> c = c0 else a0 ! i < a ! nat (j + 1)) \<and>
     (\<exists>shifts. c = c0 @ shifts \<and>
        map (\<lambda>r. snd (snd r)) shifts = map (\<lambda>k. [k, k + 1]) (rev [nat (j + 1)..<i]))"

text \<open>
  A page on which no two waiting procedures belong to the same variant, and the flag of a
  variant is true exactly when one belongs to it.
\<close>

definition single_flight :: "world \<Rightarrow> bool" where
  "single_flight w \<longleftrightarrow>
     distinct (map run_type (suspended w)) \<and>
     (\<forall>type. isSorting (sortStates w type) \<longleftrightarrow> type \<in> set (map run_type (suspended w)))"

text \<open>
  A variant sorts an array when the file has a procedure for it, the procedure returns,
  and the array it leaves is a non-decreasing permutation of the one it was given.
\<close>

definition run_sorts :: "variant \<Rightarrow> int list \<Rightarrow> bool" where
  "run_sorts type arr =
     (case sortProcedure type of
        None \<Rightarrow> False
      | Some procedure \<Rightarrow>
          (case procedure arr of
             None \<Rightarrow> False
           | Some (arr', rs) \<Rightarrow> sorted arr' \<and> mset arr' = mset arr))"

text \<open>A page on which every step counter is \<open>0\<close>.\<close>

definition currentStep_zero :: "world \<Rightarrow> bool" where
  "currentStep_zero w \<longleftrightarrow> (\<forall>type. currentStep (sortStates w type) = 0)"

text \<open>
  The array that the render calls \<open>rs\<close> leave on the screen, starting from \<open>arr\<close>; a
  page on which no run is endless; a page on which every waiting procedure will leave
  behind the array of its last render call.
\<close>

definition shown :: "int list \<Rightarrow> render list \<Rightarrow> int list" where
  "shown arr rs = last (arr # map (\<lambda>r. fst (snd r)) rs)"

definition no_endless :: "world \<Rightarrow> bool" where
  "no_endless w \<longleftrightarrow> (\<forall>type. Endless type \<notin> set (suspended w))"

definition runs_ok :: "world \<Rightarrow> bool" where
  "runs_ok w \<longleftrightarrow>
     (\<forall>type rs final. Run type rs final \<in> set (suspended w) \<longrightarrow>
        final = shown (array (sortStates w type)) rs)"

text \<open>
  A page for the examples: the first random Number is \<open>1 / 2\<close> (mantissa \<open>1\<close>,
  exponent \<open>- 1\<close>) and all later ones are \<open>0\<close>, so that the array of bubble sort
  starts as \<open>50\<close> followed by nineteen times \<open>5\<close>; then the start button of bubble
  sort is clicked.
\<close>

definition sample_random :: "nat \<Rightarrow> number" where
  "sample_random k = (if k = 0 then Number 1 (- 1) else Number 0 0)"

definition sample_page :: world where
  "sample_page = initializeVisualizations (initial sample_random)"

definition sample_busy :: world where
  "sample_busy = step sample_page (Click bubble_sort_start)"

section \<open>Bubble sort: one pass and the whole run\<close>

lemma filter_swap_length:
  "i < length xs \<Longrightarrow> j < length xs \<Longrightarrow>
   length (filter P (xs[i := xs ! j, j := xs ! i])) = length (filter P xs)"
proof -
  assume a: "i < length xs" "j < length xs"
  have "mset (xs[i := xs ! j, j := xs ! i]) = mset xs"
    using a by (simp add: mset_swap)
  then have "mset (filter P (xs[i := xs ! j, j := xs ! i])) = mset (filter P xs)"
    by (simp only: mset_filter)
  then show ?thesis by (metis size_mset)
qed

lemma inversions_swap:
  "i + 1 < length xs \<Longrightarrow> xs ! (i + 1) < xs ! i \<Longrightarrow>
   Suc (inversions (xs[i := xs ! (i + 1), i + 1 := xs ! i])) = inversions xs"
proof (induction xs arbitrary: i)
  case Nil
  then show ?case by simp
next
  case (Cons x xs)
  show ?case
  proof (cases i)
    case 0
    with Cons.prems obtain y ys where xs: "xs = y # ys" by (cases xs) auto
    with 0 Cons.prems show ?thesis by auto
  next
    case (Suc k)
    with Cons.prems have k: "k + 1 < length xs" "xs ! (k + 1) < xs ! k" by auto
    have f: "length (filter (\<lambda>y. y < x) (xs[k := xs ! (k + 1), k + 1 := xs ! k])) = length (filter (\<lambda>y. y < x) xs)"
      using k(1) by (intro filter_swap_length) auto
    from Cons.IH[OF k] f Suc show ?thesis by simp
  qed
qed

lemma bubble_for_rule:
  assumes "I i arr sw sc"
    and "\<And>i arr sw sc. I i arr sw sc \<Longrightarrow> int i < int n - 1 \<Longrightarrow> arr ! (i + 1) < arr ! i \<Longrightarrow>
           I (i + 1) (arr[i := arr ! (i + 1), i + 1 := arr ! i]) True
             (createBars Bubble (arr[i := arr ! (i + 1), i + 1 := arr ! i]) [i, i + 1] sc)"
    and "\<And>i arr sw sc. I i arr sw sc \<Longrightarrow> int i < int n - 1 \<Longrightarrow> \<not> arr ! (i + 1) < arr ! i \<Longrightarrow>
           I (i + 1) arr sw sc"
  shows "\<exists>k. \<not> int k < int n - 1 \<and> (case bubble_for n i arr sw sc of (a, s, c) \<Rightarrow> I k a s c)"
  using assms
proof (induction n i arr sw sc rule: bubble_for.induct)
  case (1 n i arr swapped screen)
  note inv = "1.prems"(1) and swp = "1.prems"(2) and keep = "1.prems"(3)
  show ?case
  proof (cases "int i < int n - 1")
    case False
    with inv show ?thesis
      by (subst bubble_for.simps) auto
  next
    case True
    show ?thesis
    proof (cases "arr ! (i + 1) < arr ! i")
      case lt: True
      from "1.IH"(1)[OF True lt refl swp[OF inv True lt] swp keep] True lt show ?thesis
        by (subst bubble_for.simps) (simp add: Let_def)
    next
      case ge: False
      from "1.IH"(2)[OF True ge keep[OF inv True ge] swp keep] True ge show ?thesis
        by (subst bubble_for.simps) simp
    qed
  qed
qed

lemma bubble_for_inv:
  assumes "n \<le> length arr"
  shows "\<exists>k. \<not> int k < int n - 1 \<and>
     (case bubble_for n 0 arr False sc of (a, s, c) \<Rightarrow> bubble_inv n arr sc k a s c)"
proof (rule bubble_for_rule)
  show "bubble_inv n arr sc 0 arr False sc" by (simp add: bubble_inv_def)
next
  fix i a s c
  assume I: "bubble_inv n arr sc i a s c" and i: "int i < int n - 1" and lt: "a ! (i + 1) < a ! i"
  from I assms i have len: "i + 1 < length a" by (auto simp: bubble_inv_def)
  from inversions_swap[OF len lt] have "inversions (a[i := a ! (i + 1), i + 1 := a ! i]) < inversions a" by simp
  moreover from I have "inversions a \<le> inversions arr" by (auto simp: bubble_inv_def split: if_splits)
  moreover have "mset (a[i := a ! (i + 1), i + 1 := a ! i]) = mset a"
    using len by (simp add: mset_swap)
  ultimately show "bubble_inv n arr sc (i + 1) (a[i := a ! (i + 1), i + 1 := a ! i]) True
     (createBars Bubble (a[i := a ! (i + 1), i + 1 := a ! i]) [i, i + 1] c)"
    using I by (simp add: bubble_inv_def)
next
  fix i a s c
  assume I: "bubble_inv n arr sc i a s c" and i: "int i < int n - 1" and ge: "\<not> a ! (i + 1) < a ! i"
  show "bubble_inv n arr sc (i + 1) a s c"
    using I ge by (auto simp: bubble_inv_def less_Suc_eq)
qed

lemma bubble_for_pass:
  assumes "n \<le> length arr" and "bubble_for n 0 arr False sc = (a, s, c)"
  shows "length a = length arr" and "mset a = mset arr"
    and "s \<Longrightarrow> inversions a < inversions arr"
    and "\<not> s \<Longrightarrow> a = arr \<and> c = sc \<and> (\<forall>k. int k < int n - 1 \<longrightarrow> arr ! k \<le> arr ! (k + 1))"
proof -
  from bubble_for_inv[OF assms(1), of sc] assms(2)
  obtain k where k: "\<not> int k < int n - 1" and I: "bubble_inv n arr sc k a s c" by auto
  from I show "length a = length arr" "mset a = mset arr" by (simp_all add: bubble_inv_def)
  from I show "s \<Longrightarrow> inversions a < inversions arr" by (simp add: bubble_inv_def)
  assume "\<not> s"
  with I have e: "a = arr" "c = sc" and le: "\<forall>j<k. int j < int n - 1 \<longrightarrow> arr ! j \<le> arr ! (j + 1)"
    by (auto simp: bubble_inv_def)
  have "\<forall>j. int j < int n - 1 \<longrightarrow> arr ! j \<le> arr ! (j + 1)"
  proof (intro allI impI)
    fix j assume j: "int j < int n - 1"
    with k have "j < k" by linarith
    with le j show "arr ! j \<le> arr ! (j + 1)" by blast
  qed
  with e show "a = arr \<and> c = sc \<and> (\<forall>k. int k < int n - 1 \<longrightarrow> arr ! k \<le> arr ! (k + 1))" by simp
qed

lemma bubble_for_screen:
  "bubble_for n i arr sw (sc1 @ sc2) =
     (case bubble_for n i arr sw sc2 of (a, s, c) \<Rightarrow> (a, s, sc1 @ c))"
proof (induction n i arr sw sc2 rule: bubble_for.induct)
  case (1 n i arr swapped screen)
  show ?case
  proof (cases "int i < int n - 1")
    case False
    then show ?thesis by (simp add: bubble_for.simps)
  next
    case True
    show ?thesis
    proof (cases "arr ! (i + 1) < arr ! i")
      case lt: True
      from "1.IH"(1)[OF True lt refl] True lt show ?thesis
        by (subst (1 2) bubble_for.simps) (simp add: Let_def createBars_def)
    next
      case ge: False
      from "1.IH"(2)[OF True ge] True ge show ?thesis
        by (subst (1 2) bubble_for.simps) simp
    qed
  qed
qed

lemma bubble_for_as_pass:
  "bubble_for (length arr) 0 arr False sc =
     (bubble_pass_array arr, bubble_pass_swapped arr, sc @ snd (snd (bubble_pass arr)))"
  using bubble_for_screen[of "length arr" 0 arr False sc "[]"]
  by (simp add: bubble_pass_def bubble_pass_array_def bubble_pass_swapped_def split: prod.splits)

lemma adjacent_sorted:
  "(\<forall>k. int k < int (length arr) - 1 \<longrightarrow> arr ! k \<le> arr ! (k + 1)) \<Longrightarrow> sorted (arr :: int list)"
  by (auto simp: sorted_iff_nth_Suc)

lemma sorted_adjacent:
  "sorted (arr :: int list) \<Longrightarrow> int k < int (length arr) - 1 \<Longrightarrow> arr ! k \<le> arr ! (k + 1)"
  by (auto simp: sorted_iff_nth_Suc)

lemma bubble_do_run:
  "n = length arr \<Longrightarrow>
   \<exists>k. bubble_do n arr sc \<noteq> None \<and>
       fst (the (bubble_do n arr sc)) = (bubble_pass_array ^^ k) arr \<and>
       \<not> bubble_pass_swapped ((bubble_pass_array ^^ k) arr) \<and>
       (\<forall>j<k. bubble_pass_swapped ((bubble_pass_array ^^ j) arr)) \<and>
       mset (fst (the (bubble_do n arr sc))) = mset arr \<and> sorted (fst (the (bubble_do n arr sc)))"
proof (induction "inversions arr" arbitrary: arr sc rule: less_induct)
  case less
  define a s c where "a = bubble_pass_array arr" and "s = bubble_pass_swapped arr"
    and "c = snd (snd (bubble_pass arr))"
  have f: "bubble_for (length arr) 0 arr False [] = (a, s, c)"
    by (simp add: bubble_pass_def a_def s_def c_def bubble_pass_array_def bubble_pass_swapped_def)
  have g: "bubble_for n 0 arr False sc = (a, s, sc @ c)"
    using bubble_for_as_pass[of arr sc] less.prems by (simp add: a_def s_def c_def)
  note facts = bubble_for_pass[OF order_refl f]
  show ?case
  proof (cases s)
    case False
    with facts(4) have e: "a = arr" and adj: "\<forall>k. int k < int (length arr) - 1 \<longrightarrow> arr ! k \<le> arr ! (k + 1)"
      by simp_all
    have d: "bubble_do n arr sc = Some (arr, sc @ c)"
      using g False e by (subst bubble_do.simps) simp
    have "sorted arr" using adj by (rule adjacent_sorted)
    with d False show ?thesis
      by (intro exI[of _ 0]) (simp add: s_def)
  next
    case True
    with facts have lt: "inversions a < inversions arr" and len: "n = length a" and ms: "mset a = mset arr"
      using less.prems by simp_all
    from less.hyps[OF lt len, of "sc @ c"] obtain k where k:
      "bubble_do n a (sc @ c) \<noteq> None"
      "fst (the (bubble_do n a (sc @ c))) = (bubble_pass_array ^^ k) a"
      "\<not> bubble_pass_swapped ((bubble_pass_array ^^ k) a)"
      "\<forall>j<k. bubble_pass_swapped ((bubble_pass_array ^^ j) a)"
      "mset (fst (the (bubble_do n a (sc @ c)))) = mset a"
      "sorted (fst (the (bubble_do n a (sc @ c))))"
      by blast
    have d: "bubble_do n arr sc = bubble_do n a (sc @ c)"
      using g True by (subst bubble_do.simps) simp
    have all: "\<forall>j<Suc k. bubble_pass_swapped ((bubble_pass_array ^^ j) arr)"
    proof (intro allI impI)
      fix j assume j: "j < Suc k"
      show "bubble_pass_swapped ((bubble_pass_array ^^ j) arr)"
      proof (cases j)
        case 0
        with True show ?thesis by (simp add: s_def)
      next
        case (Suc j')
        with j k(4) have "bubble_pass_swapped ((bubble_pass_array ^^ j') a)" by simp
        with Suc show ?thesis by (simp add: funpow_swap1 a_def)
      qed
    qed
    have pw: "(bubble_pass_array ^^ Suc k) arr = (bubble_pass_array ^^ k) a"
      by (simp add: funpow_swap1 a_def)
    show ?thesis
      apply (rule exI[of _ "Suc k"])
      using k d ms all by (simp only: pw) simp
  qed
qed

lemma bubbleSort_sorted_mset:
  "\<exists>arr' rs. bubbleSort arr = Some (arr', rs) \<and> sorted arr' \<and> mset arr' = mset arr"
proof -
  from bubble_do_run[OF refl, of arr "[]"] obtain k where
    "bubble_do (length arr) arr [] \<noteq> None"
    "mset (fst (the (bubble_do (length arr) arr []))) = mset arr"
    "sorted (fst (the (bubble_do (length arr) arr [])))"
    by blast
  then show ?thesis by (auto simp: bubbleSort_def)
qed

section \<open>Selection sort\<close>

lemma scan_ok_exit: "\<not> j < n \<Longrightarrow> m0 < j \<Longrightarrow> scan_ok n j arr m0 m0"
  by (auto simp: scan_ok_def)

lemma scan_ok_less:
  assumes "scan_ok n (j + 1) arr j m" and "arr ! j < arr ! m0" and "j < n"
  shows "scan_ok n j arr m0 m"
  unfolding scan_ok_def
proof (intro conjI allI impI)
  show "m = m0 \<or> (j \<le> m \<and> m < n)" using assms by (auto simp: scan_ok_def)
  show "arr ! m \<le> arr ! m0" using assms by (auto simp: scan_ok_def)
  show "m \<noteq> m0 \<Longrightarrow> arr ! m < arr ! m0" using assms by (auto simp: scan_ok_def)
next
  fix k assume k: "j \<le> k \<and> k < n"
  then have "k = j \<or> (j + 1 \<le> k \<and> k < n)" by auto
  then show "arr ! m \<le> arr ! k" using assms(1) by (auto simp: scan_ok_def)
next
  fix k assume k: "j \<le> k \<and> k < m"
  then have "(k = j \<and> m \<noteq> j) \<or> (j + 1 \<le> k \<and> k < m)" by auto
  then show "arr ! m < arr ! k" using assms(1) by (auto simp: scan_ok_def)
qed

lemma scan_ok_keep:
  assumes "scan_ok n (j + 1) arr m0 m" and "\<not> arr ! j < arr ! m0" and "m0 < j"
  shows "scan_ok n j arr m0 m"
  unfolding scan_ok_def
proof (intro conjI allI impI)
  show "m = m0 \<or> (j \<le> m \<and> m < n)" using assms by (auto simp: scan_ok_def)
  show "arr ! m \<le> arr ! m0" using assms by (auto simp: scan_ok_def)
  show "m \<noteq> m0 \<Longrightarrow> arr ! m < arr ! m0" using assms by (auto simp: scan_ok_def)
next
  fix k assume k: "j \<le> k \<and> k < n"
  then have "k = j \<or> (j + 1 \<le> k \<and> k < n)" by auto
  then show "arr ! m \<le> arr ! k"
  proof
    assume "k = j"
    moreover have "arr ! m \<le> arr ! m0" using assms(1) by (simp add: scan_ok_def)
    ultimately show ?thesis using assms(2) by simp
  next
    assume "j + 1 \<le> k \<and> k < n"
    then show ?thesis using assms(1) by (simp add: scan_ok_def)
  qed
next
  fix k assume k: "j \<le> k \<and> k < m"
  then have "(k = j \<and> m \<noteq> m0) \<or> (j + 1 \<le> k \<and> k < m)" using assms(3) by auto
  then show "arr ! m < arr ! k"
  proof
    assume "k = j \<and> m \<noteq> m0"
    moreover then have "arr ! m < arr ! m0" using assms(1) by (simp add: scan_ok_def)
    ultimately show ?thesis using assms(2) by simp
  next
    assume "j + 1 \<le> k \<and> k < m"
    then show ?thesis using assms(1) by (simp add: scan_ok_def)
  qed
qed

lemma selection_scan_spec:
  "m0 < j \<Longrightarrow> scan_ok n j arr m0 (selection_scan n j arr m0)"
proof (induction n j arr m0 rule: selection_scan.induct)
  case (1 n j arr minIndex)
  show ?case
  proof (cases "j < n")
    case False
    then have eq: "selection_scan n j arr minIndex = minIndex"
      by (subst selection_scan.simps) simp
    show ?thesis unfolding eq using False "1.prems" by (rule scan_ok_exit)
  next
    case True
    show ?thesis
    proof (cases "arr ! j < arr ! minIndex")
      case lt: True
      have eq: "selection_scan n j arr minIndex = selection_scan n (j + 1) arr j"
        using True lt by (subst selection_scan.simps) simp
      have "j < j + 1" by simp
      from "1.IH"(1)[OF True lt this] show ?thesis
        unfolding eq using lt True by (rule scan_ok_less)
    next
      case ge: False
      have eq: "selection_scan n j arr minIndex = selection_scan n (j + 1) arr minIndex"
        using True ge by (subst selection_scan.simps) simp
      from "1.prems" have "minIndex < j + 1" by simp
      from "1.IH"(2)[OF True ge this] show ?thesis
        unfolding eq using ge "1.prems" by (rule scan_ok_keep)
    qed
  qed
qed

lemma selection_scan_from:
  assumes "m = selection_scan n (i + 1) arr i" and "i < n"
  shows "i \<le> m" and "m < n" and "\<forall>k. i \<le> k \<and> k < n \<longrightarrow> arr ! m \<le> arr ! k"
    and "\<forall>k. i \<le> k \<and> k < m \<longrightarrow> arr ! m < arr ! k"
proof -
  have "i < i + 1" by simp
  from selection_scan_spec[OF this, of n arr] have s: "scan_ok n (i + 1) arr i m"
    by (simp add: assms(1))
  from s assms(2) show "i \<le> m" "m < n" by (auto simp: scan_ok_def)
  show "\<forall>k. i \<le> k \<and> k < n \<longrightarrow> arr ! m \<le> arr ! k"
  proof (intro allI impI)
    fix k assume "i \<le> k \<and> k < n"
    then have "k = i \<or> (i + 1 \<le> k \<and> k < n)" by auto
    with s show "arr ! m \<le> arr ! k" by (auto simp: scan_ok_def)
  qed
  show "\<forall>k. i \<le> k \<and> k < m \<longrightarrow> arr ! m < arr ! k"
  proof (intro allI impI)
    fix k assume k: "i \<le> k \<and> k < m"
    then have "(k = i \<and> m \<noteq> i) \<or> (i + 1 \<le> k \<and> k < m)" by auto
    with s show "arr ! m < arr ! k" by (auto simp: scan_ok_def)
  qed
qed

lemma selection_for_fold:
  "selection_for n i st = fold (selection_body n) [i..<n - 1] st"
proof (induction n i st rule: selection_for.induct)
  case (1 n i st)
  show ?case
  proof (cases "int i < int n - 1")
    case True
    then have "i < n - 1" by linarith
    then have "[i..<n - 1] = i # [i + 1..<n - 1]" by (simp add: upt_conv_Cons)
    with "1.IH"[OF True] True show ?thesis by (subst selection_for.simps) simp
  next
    case False
    then have "\<not> i < n - 1" by linarith
    with False show ?thesis by (subst selection_for.simps) simp
  qed
qed

lemma selectionSort_state: "selectionSort arr = selection_state arr (length arr - 1)"
  by (simp add: selectionSort_def selection_state_def selection_for_fold)

lemma selection_state_0: "selection_state arr 0 = (arr, [])"
  by (simp add: selection_state_def)

lemma selection_state_Suc:
  "selection_state arr (Suc i) = selection_body (length arr) i (selection_state arr i)"
  by (simp add: selection_state_def)

lemma selection_body_result:
  "selection_body n i (a, c) =
     (if selection_scan n (i + 1) a i \<noteq> i then
        (a[i := a ! selection_scan n (i + 1) a i, selection_scan n (i + 1) a i := a ! i],
         c @ [(Selection, a[i := a ! selection_scan n (i + 1) a i, selection_scan n (i + 1) a i := a ! i],
               [i, selection_scan n (i + 1) a i])])
      else (a, c))"
  by (simp add: selection_body_def Let_def createBars_def)

lemma selection_body_array:
  "fst (selection_body n i (a, c)) =
     a[i := a ! selection_scan n (i + 1) a i, selection_scan n (i + 1) a i := a ! i]"
  by (simp add: selection_body_result)

lemma selection_inv_step:
  assumes I: "selection_inv arr i a" and i: "i < length arr"
  shows "selection_inv arr (i + 1) (fst (selection_body (length arr) i (a, c)))"
proof -
  define n where "n = length arr"
  define m where "m = selection_scan n (i + 1) a i"
  define a' where "a' = a[i := a ! m, m := a ! i]"
  from I have len: "length a = n" and ms: "mset a = mset arr"
    and ord: "\<And>p q. p < q \<Longrightarrow> p < i \<Longrightarrow> q < n \<Longrightarrow> a ! p \<le> a ! q"
    by (auto simp: selection_inv_def n_def)
  from i have i': "i < n" by (simp add: n_def)
  note sc = selection_scan_from[OF m_def i']
  have nth: "\<And>x. x < n \<Longrightarrow> a' ! x = (if x = m then a ! i else if x = i then a ! m else a ! x)"
    using len i' sc(2) by (auto simp: a'_def nth_list_update)
  have "mset a' = mset a" unfolding a'_def using len i' sc(2) by (simp add: mset_swap)
  moreover have "length a' = n" by (simp add: a'_def len)
  moreover have "\<forall>p q. p < q \<and> p < i + 1 \<and> q < n \<longrightarrow> a' ! p \<le> a' ! q"
  proof (intro allI impI)
    fix p q assume h: "p < q \<and> p < i + 1 \<and> q < n"
    then have p: "p < n" and q: "q < n" by auto
    show "a' ! p \<le> a' ! q"
    proof (cases "p < i")
      case True
      with sc(1) have pe: "a' ! p = a ! p" using nth[OF p] by auto
      have "a ! p \<le> a ! i" "a ! p \<le> a ! m" "a ! p \<le> a ! q"
        using True ord[of p i] ord[of p m] ord[of p q] i' sc(1,2) h by auto
      then show ?thesis unfolding pe nth[OF q] by auto
    next
      case False
      with h have pi: "p = i" by auto
      have pe: "a' ! p = a ! m" using nth[OF p] pi by auto
      have "a ! m \<le> a ! i" "a ! m \<le> a ! q"
        using sc(3) i' h pi by auto
      then show ?thesis unfolding pe nth[OF q] by auto
    qed
  qed
  ultimately have "selection_inv arr (i + 1) a'"
    using ms by (simp add: selection_inv_def n_def)
  then show ?thesis
    by (simp add: selection_body_array a'_def m_def n_def)
qed

lemma selection_state_inv:
  "i \<le> length arr \<Longrightarrow> selection_inv arr i (fst (selection_state arr i))"
proof (induction i)
  case 0
  show ?case by (simp add: selection_state_0 selection_inv_def)
next
  case (Suc i)
  then have "selection_inv arr i (fst (selection_state arr i))" and i: "i < length arr" by simp_all
  from selection_inv_step[OF this, of "snd (selection_state arr i)"]
  show ?case by (simp add: selection_state_Suc)
qed

lemma selectionSort_sorted_mset:
  "sorted (fst (selectionSort arr)) \<and> mset (fst (selectionSort arr)) = mset arr"
proof -
  have "selection_inv arr (length arr - 1) (fst (selectionSort arr))"
    using selection_state_inv[of "length arr - 1" arr] by (simp add: selectionSort_state)
  then show ?thesis
    by (auto simp: selection_inv_def sorted_iff_nth_mono_less)
qed

lemma selection_state_renders:
  "length (snd (selection_state arr i)) = length (filter (\<lambda>k. selection_min arr k \<noteq> k) [0..<i])"
proof (induction i)
  case 0
  show ?case by (simp add: selection_state_0)
next
  case (Suc i)
  obtain a c where st: "selection_state arr i = (a, c)" by (cases "selection_state arr i") auto
  with Suc show ?case
    by (simp add: selection_state_Suc selection_body_result selection_min_def)
qed

section \<open>Insertion sort\<close>

lemma insertion_while_rule:
  assumes "I j arr sc"
    and "\<And>j arr sc. I j arr sc \<Longrightarrow> 0 \<le> j \<Longrightarrow> key < arr ! nat j \<Longrightarrow>
           I (j - 1) (arr[nat (j + 1) := arr ! nat j])
             (createBars Insertion (arr[nat (j + 1) := arr ! nat j]) [nat j, nat (j + 1)] sc)"
  shows "case insertion_while key j arr sc of
           (j', a', c') \<Rightarrow> I j' a' c' \<and> \<not> (0 \<le> j' \<and> key < a' ! nat j')"
  using assms
proof (induction key j arr sc rule: insertion_while.induct)
  case (1 key j arr screen)
  note inv = "1.prems"(1) and stp = "1.prems"(2)
  show ?case
  proof (cases "0 \<le> j \<and> key < arr ! nat j")
    case False
    with inv show ?thesis by (subst insertion_while.simps) auto
  next
    case True
    then have c: "j \<ge> 0 \<and> arr ! nat j > key" by simp
    from True have j: "0 \<le> j" and k: "key < arr ! nat j" by simp_all
    from "1.IH"[OF c refl stp[OF inv j k] stp] True show ?thesis
      by (subst insertion_while.simps) (simp add: Let_def)
  qed
qed

lemma shift_inv_step:
  assumes I: "shift_inv i a0 j a" and j: "0 \<le> j" and k: "a0 ! i < a ! nat j" and i: "i < length a0"
  shows "shift_inv i a0 (j - 1) (a[nat (j + 1) := a ! nat j])"
proof -
  obtain g where g: "j = int g" using j by (metis nat_0_le)
  define h where "h = Suc g"
  define a' where "a' = a[h := a ! g]"
  have nj: "nat (j + 1) = h" "nat j = g" "nat (j - 1 + 1) = g" by (simp_all add: g h_def)
  from I have I': "shift_inv i a0 (int g) a" by (simp add: g)
  have r: "nat (int g + 1) = h" by (simp add: h_def)
  from I' have len: "length a = length a0" and gi: "g < i"
    and ord: "\<And>p q. p < q \<Longrightarrow> q \<le> i \<Longrightarrow> p \<noteq> h \<Longrightarrow> q \<noteq> h \<Longrightarrow> a ! p \<le> a ! q"
    and big: "\<And>q. h < q \<Longrightarrow> q \<le> i \<Longrightarrow> a0 ! i < a ! q"
    and ms: "mset (a[h := a0 ! i]) = mset a0"
    unfolding shift_inv_def r by auto
  have hl: "h < length a" "g < length a" using gi i len by (simp_all add: h_def)
  have nth: "\<And>x. a' ! x = (if x = h then a ! g else a ! x)"
    using hl by (simp add: a'_def nth_list_update)
  have o: "\<forall>p q. p < q \<and> q \<le> i \<and> p \<noteq> g \<and> q \<noteq> g \<longrightarrow> a' ! p \<le> a' ! q"
  proof (intro allI impI)
    fix p q assume pq: "p < q \<and> q \<le> i \<and> p \<noteq> g \<and> q \<noteq> g"
    show "a' ! p \<le> a' ! q"
    proof (cases "p = h")
      case True
      with pq have "a ! g \<le> a ! q" by (intro ord) (auto simp: h_def)
      with True pq show ?thesis by (simp add: nth)
    next
      case ph: False
      show ?thesis
      proof (cases "q = h")
        case True
        with pq have "p < g" by (auto simp: h_def)
        then have "a ! p \<le> a ! g" using gi by (intro ord) (auto simp: h_def)
        with True ph show ?thesis by (simp add: nth)
      next
        case False
        with ph pq have "a ! p \<le> a ! q" by (intro ord) auto
        with False ph show ?thesis by (simp add: nth)
      qed
    qed
  qed
  have b: "\<forall>q. g < q \<and> q \<le> i \<longrightarrow> a0 ! i < a' ! q"
  proof (intro allI impI)
    fix q assume q: "g < q \<and> q \<le> i"
    show "a0 ! i < a' ! q"
    proof (cases "q = h")
      case True
      with k show ?thesis by (simp add: nth nj)
    next
      case False
      with q have "h < q" by (auto simp: h_def)
      with q big False show ?thesis by (simp add: nth)
    qed
  qed
  have m: "mset (a'[g := a0 ! i]) = mset a0"
  proof -
    define b where "b = a[h := a0 ! i]"
    have "b[g := b ! h, h := b ! g] = a'[g := a0 ! i]"
      using hl by (auto simp: b_def a'_def h_def list_eq_iff_nth_eq nth_list_update)
    moreover have "mset (b[g := b ! h, h := b ! g]) = mset b"
      by (rule mset_swap) (simp_all add: b_def hl)
    ultimately show ?thesis using ms by (simp add: b_def)
  qed
  have "shift_inv i a0 (int g - 1) a'"
    unfolding shift_inv_def using o b m len gi by (simp add: a'_def)
  then show ?thesis by (simp add: a'_def nj g r)
qed

lemma trace_inv_step:
  assumes I: "trace_inv i a0 c0 j a c" and j: "0 \<le> j" and k: "a0 ! i < a ! nat j"
  shows "trace_inv i a0 c0 (j - 1) (a[nat (j + 1) := a ! nat j])
           (createBars Insertion (a[nat (j + 1) := a ! nat j]) [nat j, nat (j + 1)] c)"
proof -
  obtain g where g: "j = int g" using j by (metis nat_0_le)
  have r: "nat (int g + 1) = Suc g" "nat (int g - 1 + 1) = g" by simp_all
  from I obtain shifts where gi: "g < i" and c: "c = c0 @ shifts"
    and hs: "map (\<lambda>r. snd (snd r)) shifts = map (\<lambda>k. [k, k + 1]) (rev [Suc g..<i])"
    unfolding trace_inv_def g r by auto
  have up: "[g..<i] = g # [Suc g..<i]" using gi by (simp add: upt_conv_Cons)
  have "a0 ! i < (a[Suc g := a ! g]) ! g" using k by (simp add: g)
  moreover have "createBars Insertion (a[Suc g := a ! g]) [g, Suc g] c =
      c0 @ (shifts @ [(Insertion, a[Suc g := a ! g], [g, Suc g])])"
    by (simp add: createBars_def c)
  moreover have "map (\<lambda>r. snd (snd r)) (shifts @ [(Insertion, a[Suc g := a ! g], [g, Suc g])]) =
      map (\<lambda>k. [k, k + 1]) (rev [g..<i])"
    by (simp add: hs up)
  ultimately have "trace_inv i a0 c0 (int g - 1) (a[Suc g := a ! g])
      (createBars Insertion (a[Suc g := a ! g]) [g, Suc g] c)"
    unfolding trace_inv_def r using gi by auto
  then show ?thesis by (simp add: g r)
qed

lemma insertion_while_facts:
  assumes i: "i < length a" and st: "insertion_while (a ! i) (int i - 1) a c = (j, a1, c1)"
  shows "trace_inv i a c j a1 c1"
    and "\<not> (0 \<le> j \<and> a ! i < a1 ! nat j)"
    and "1 \<le> i \<Longrightarrow> insertion_inv arr i a \<Longrightarrow> shift_inv i a j a1"
proof -
  have t0: "trace_inv i a c (int i - 1) a c"
    by (simp add: trace_inv_def)
  have "case insertion_while (a ! i) (int i - 1) a c of
          (j', a', c') \<Rightarrow> trace_inv i a c j' a' c' \<and> \<not> (0 \<le> j' \<and> a ! i < a' ! nat j')"
  proof (rule insertion_while_rule[where I = "\<lambda>j a' c'. trace_inv i a c j a' c'"])
    show "trace_inv i a c (int i - 1) a c" by (rule t0)
  next
    fix j a' c'
    assume "trace_inv i a c j a' c'" "0 \<le> j" "a ! i < a' ! nat j"
    then show "trace_inv i a c (j - 1) (a'[nat (j + 1) := a' ! nat j])
        (createBars Insertion (a'[nat (j + 1) := a' ! nat j]) [nat j, nat (j + 1)] c')"
      by (rule trace_inv_step)
  qed
  with st show "trace_inv i a c j a1 c1" and "\<not> (0 \<le> j \<and> a ! i < a1 ! nat j)" by simp_all
  assume i1: "1 \<le> i" and O: "insertion_inv arr i a"
  have ni: "nat (int i - 1 + 1) = i" by simp
  have s0: "shift_inv i a (int i - 1) a"
    unfolding shift_inv_def ni using O i1 by (auto simp: insertion_inv_def)
  have "case insertion_while (a ! i) (int i - 1) a c of
          (j', a', c') \<Rightarrow> shift_inv i a j' a' \<and> \<not> (0 \<le> j' \<and> a ! i < a' ! nat j')"
  proof (rule insertion_while_rule[where I = "\<lambda>j a' c'. shift_inv i a j a'"])
    show "shift_inv i a (int i - 1) a" by (rule s0)
  next
    fix j a' c'
    assume "shift_inv i a j a'" "0 \<le> j" "a ! i < a' ! nat j"
    then show "shift_inv i a (j - 1) (a'[nat (j + 1) := a' ! nat j])"
      using i by (rule shift_inv_step)
  qed
  with st show "shift_inv i a j a1" by simp
qed

lemma insertion_body_result:
  assumes i: "i < length a" and st: "insertion_while (a ! i) (int i - 1) a c = (j, a1, c1)"
  shows "insertion_body i (a, c) =
     (a1[nat (j + 1) := a ! i],
      c1 @ (if nat (j + 1) < i then [(Insertion, a1[nat (j + 1) := a ! i], [nat (j + 1)])] else []))"
proof -
  note t = insertion_while_facts(1)[OF i st]
  show ?thesis
  proof (cases "j = int i - 1")
    case True
    with t have "a1 = a" "c1 = c" by (simp_all add: trace_inv_def)
    with True st show ?thesis
      by (simp add: insertion_body_def Let_def)
  next
    case False
    with t have "a ! i < a1 ! nat (j + 1)" and "nat (j + 1) < i"
      by (auto simp: trace_inv_def)
    with st show ?thesis
      by (simp add: insertion_body_def Let_def createBars_def)
  qed
qed

lemma insertion_inv_step:
  assumes O: "insertion_inv arr i a" and i1: "1 \<le> i" and i: "i < length arr"
  shows "insertion_inv arr (i + 1) (fst (insertion_body i (a, c)))"
proof -
  obtain j a1 c1 where st: "insertion_while (a ! i) (int i - 1) a c = (j, a1, c1)"
    by (cases "insertion_while (a ! i) (int i - 1) a c") auto
  from O have la: "length a = length arr" and ma: "mset a = mset arr" by (simp_all add: insertion_inv_def)
  from i la have ia: "i < length a" by simp
  note ex = insertion_while_facts(2)[OF ia st]
  note S = insertion_while_facts(3)[OF ia st i1 O]
  define h where "h = nat (j + 1)"
  define b where "b = a1[h := a ! i]"
  from S have j: "- 1 \<le> j" "j < int i" and len: "length a1 = length a"
    and ord: "\<And>p q. p < q \<Longrightarrow> q \<le> i \<Longrightarrow> p \<noteq> h \<Longrightarrow> q \<noteq> h \<Longrightarrow> a1 ! p \<le> a1 ! q"
    and big: "\<And>q. h < q \<Longrightarrow> q \<le> i \<Longrightarrow> a ! i < a1 ! q"
    and ms: "mset b = mset a"
    unfolding shift_inv_def h_def[symmetric] b_def by auto
  from j have hi: "h \<le> i" by (simp add: h_def)
  with ia len have hl: "h < length a1" by simp
  have nth: "\<And>x. b ! x = (if x = h then a ! i else a1 ! x)"
    using hl by (simp add: b_def nth_list_update)
  have low: "\<And>p. p < h \<Longrightarrow> a1 ! p \<le> a ! i"
  proof -
    fix p assume p: "p < h"
    then have j0: "0 \<le> j" and nj: "nat j = h - 1" by (simp_all add: h_def)
    with ex have e: "a1 ! (h - 1) \<le> a ! i" by simp
    show "a1 ! p \<le> a ! i"
    proof (cases "p = h - 1")
      case True
      with e show ?thesis by simp
    next
      case False
      with p hi have "a1 ! p \<le> a1 ! (h - 1)" by (intro ord) auto
      with e show ?thesis by simp
    qed
  qed
  have "\<forall>p q. p < q \<and> q < i + 1 \<longrightarrow> b ! p \<le> b ! q"
  proof (intro allI impI)
    fix p q assume pq: "p < q \<and> q < i + 1"
    show "b ! p \<le> b ! q"
    proof (cases "p = h")
      case True
      with pq have "a ! i < a1 ! q" by (intro big) auto
      with True pq show ?thesis by (simp add: nth)
    next
      case ph: False
      show ?thesis
      proof (cases "q = h")
        case True
        with pq low[of p] ph show ?thesis by (simp add: nth)
      next
        case False
        with ph pq have "a1 ! p \<le> a1 ! q" by (intro ord) auto
        with False ph show ?thesis by (simp add: nth)
      qed
    qed
  qed
  then have "insertion_inv arr (i + 1) b"
    using ms ma len la by (simp add: insertion_inv_def b_def)
  then show ?thesis
    by (simp add: insertion_body_result[OF ia st] b_def h_def)
qed

lemma insertion_for_fold:
  "insertion_for n i st = fold insertion_body [i..<n] st"
proof (induction n i st rule: insertion_for.induct)
  case (1 n i st)
  show ?case
  proof (cases "i < n")
    case True
    then have "[i..<n] = i # [i + 1..<n]" by (simp add: upt_conv_Cons)
    with "1.IH"[OF True] True show ?thesis by (subst insertion_for.simps) simp
  next
    case False
    then show ?thesis by (subst insertion_for.simps) simp
  qed
qed

lemma insertionSort_state: "insertionSort arr = insertion_state arr (length arr)"
  by (simp add: insertionSort_def insertion_state_def insertion_for_fold)

lemma insertion_state_1: "insertion_state arr (Suc 0) = (arr, [])"
  by (simp add: insertion_state_def)

lemma insertion_state_Suc:
  "1 \<le> i \<Longrightarrow> insertion_state arr (Suc i) = insertion_body i (insertion_state arr i)"
  by (simp add: insertion_state_def)

lemma insertion_state_inv:
  "1 \<le> i \<Longrightarrow> i \<le> length arr \<Longrightarrow> insertion_inv arr i (fst (insertion_state arr i))"
proof (induction i)
  case 0
  then show ?case by simp
next
  case (Suc i)
  show ?case
  proof (cases "i = 0")
    case True
    then show ?thesis by (simp add: insertion_state_1 insertion_inv_def)
  next
    case False
    with Suc have "insertion_inv arr i (fst (insertion_state arr i))" and i: "1 \<le> i" "i < length arr"
      by simp_all
    from insertion_inv_step[OF this, of "snd (insertion_state arr i)"] i
    show ?thesis by (simp add: insertion_state_Suc)
  qed
qed

lemma insertionSort_sorted_mset:
  "sorted (fst (insertionSort arr)) \<and> mset (fst (insertionSort arr)) = mset arr"
proof (cases "arr = []")
  case True
  then show ?thesis by (simp add: insertionSort_state insertion_state_def)
next
  case False
  then have "insertion_inv arr (length arr) (fst (insertionSort arr))"
    using insertion_state_inv[of "length arr" arr]
    by (simp add: insertionSort_state Suc_le_eq)
  then show ?thesis
    by (auto simp: insertion_inv_def sorted_iff_nth_mono_less)
qed

section \<open>The page: one run at a time\<close>

lemma single_flight_initial: "single_flight (initial rnd)"
  by (simp add: single_flight_def initial_def)

lemma single_flight_resetArray: "single_flight w \<Longrightarrow> single_flight (resetArray type w)"
  by (auto simp: single_flight_def resetArray_def Let_def)

lemma single_flight_initialize: "single_flight w \<Longrightarrow> single_flight (initializeVisualizations w)"
  by (simp add: initializeVisualizations_def single_flight_resetArray)

lemma single_flight_startSort: "single_flight w \<Longrightarrow> single_flight (startSort type procedure w)"
  by (auto simp: single_flight_def startSort_def split: option.splits prod.splits list.splits)

lemma distinct_remove_nth:
  assumes "distinct (map f xs)" and "k < length xs"
  shows "distinct (map f (take k xs @ drop (k + 1) xs))"
    and "f (xs ! k) \<notin> set (map f (take k xs @ drop (k + 1) xs))"
    and "set (map f xs) = insert (f (xs ! k)) (set (map f (take k xs @ drop (k + 1) xs)))"
proof -
  have xs: "xs = take k xs @ xs ! k # drop (k + 1) xs"
    using assms(2) by (simp add: id_take_nth_drop)
  from assms(1) have d: "distinct (map f (take k xs @ xs ! k # drop (k + 1) xs))"
    using xs by simp
  from d show "distinct (map f (take k xs @ drop (k + 1) xs))" by auto
  from d show "f (xs ! k) \<notin> set (map f (take k xs @ drop (k + 1) xs))" by auto
  have "set (map f xs) = set (map f (take k xs @ xs ! k # drop (k + 1) xs))"
    using xs by simp
  then show "set (map f xs) = insert (f (xs ! k)) (set (map f (take k xs @ drop (k + 1) xs)))"
    by simp
qed

lemma single_flight_resume:
  assumes "single_flight w"
  shows "single_flight (resume k w)"
proof (cases "k < length (suspended w)")
  case False
  with assms show ?thesis by (simp add: resume_def)
next
  case True
  from assms have d: "distinct (map run_type (suspended w))"
    and s: "\<And>type. isSorting (sortStates w type) \<longleftrightarrow> type \<in> set (map run_type (suspended w))"
    by (simp_all add: single_flight_def)
  show ?thesis
  proof (cases "suspended w ! k")
    case (Endless type)
    with assms True show ?thesis by (simp add: resume_def)
  next
    case (Run type rs final)
    show ?thesis
    proof (cases rs)
      case Nil
      note r = distinct_remove_nth[OF d True]
      from Run have t: "run_type (suspended w ! k) = type" by simp
      from Run Nil True have e: "resume k w =
          w\<lparr>sortStates := (sortStates w)(type := (sortStates w type)\<lparr>array := final, isSorting := False\<rparr>),
            suspended := take k (suspended w) @ drop (k + 1) (suspended w)\<rparr>"
        by (simp add: resume_def)
      show ?thesis unfolding e single_flight_def
        using r s by (auto simp: t)
    next
      case (Cons r rs')
      from Run have t: "run_type (suspended w ! k) = type" by simp
      have m: "map run_type ((suspended w)[k := Run type rs' final]) = map run_type (suspended w)"
        using True t by (simp add: map_update list_update_same_conv)
      from Run Cons True have e: "resume k w =
          w\<lparr>sortStates := (sortStates w)(type := (sortStates w type)\<lparr>array := fst (snd r)\<rparr>),
            screen := screen w @ [r],
            suspended := (suspended w)[k := Run type rs' final]\<rparr>"
        by (simp add: resume_def)
      show ?thesis unfolding e single_flight_def
        using d s by (simp add: m del: set_map)
    qed
  qed
qed

lemma single_flight_step: "single_flight w \<Longrightarrow> single_flight (step w e)"
proof (cases e)
  case (Click b)
  assume "single_flight w"
  with Click show ?thesis
    by (cases b) (simp_all add: single_flight_startSort single_flight_resetArray)
next
  case (Timer k)
  assume "single_flight w"
  with Timer show ?thesis by (simp add: single_flight_resume)
qed

lemma reachable_single_flight: "reachable w \<Longrightarrow> single_flight w"
  by (induction rule: reachable.induct)
     (simp_all add: single_flight_initialize single_flight_initial single_flight_step)

lemma distinct_filter_le_1:
  "distinct (map f xs) \<Longrightarrow> length (filter (\<lambda>x. f x = t) xs) \<le> 1"
  by (induction xs) (auto simp: filter_empty_conv image_iff)

section \<open>Runs on an array that is already sorted\<close>

lemma bubble_pass_sorted:
  assumes "sorted arr"
  shows "bubble_pass arr = (arr, False, [])"
proof -
  have "\<exists>k. \<not> int k < int (length arr) - 1 \<and>
      (case bubble_for (length arr) 0 arr False [] of (a, s, c) \<Rightarrow> a = arr \<and> \<not> s \<and> c = [])"
  proof (rule bubble_for_rule[where I = "\<lambda>i a s c. a = arr \<and> \<not> s \<and> c = []"])
    show "arr = arr \<and> \<not> False \<and> ([] :: render list) = []" by simp
  next
    fix i a s and c :: "render list"
    assume "a = arr \<and> \<not> s \<and> c = []" and "int i < int (length arr) - 1" and "a ! (i + 1) < a ! i"
    with sorted_adjacent[OF assms, of i] have False by simp
    then show "a[i := a ! (i + 1), i + 1 := a ! i] = arr \<and> \<not> True \<and>
        createBars Bubble (a[i := a ! (i + 1), i + 1 := a ! i]) [i, i + 1] c = []" ..
  next
    fix i and a :: "int list" and s and c :: "render list"
    assume "a = arr \<and> \<not> s \<and> c = []"
    then show "a = arr \<and> \<not> s \<and> c = []" .
  qed
  then show ?thesis by (auto simp: bubble_pass_def)
qed

lemma bubbleSort_sorted_input:
  assumes "sorted arr"
  shows "bubbleSort arr = Some (arr, [])"
  using bubble_pass_sorted[OF assms]
  by (simp add: bubbleSort_def bubble_pass_def bubble_do.simps[of "length arr" arr])

lemma selection_scan_sorted:
  assumes "sorted arr" and "i < length arr"
  shows "selection_scan (length arr) (i + 1) arr i = i"
proof (rule ccontr)
  define m where "m = selection_scan (length arr) (i + 1) arr i"
  assume "selection_scan (length arr) (i + 1) arr i \<noteq> i"
  then have ne: "m \<noteq> i" by (simp add: m_def)
  note sc = selection_scan_from[OF m_def assms(2)]
  from ne sc(1) have "i < m" by simp
  with sc(4) have "arr ! m < arr ! i" by simp
  moreover from assms(1) sc(1,2) have "arr ! i \<le> arr ! m" by (simp add: sorted_iff_nth_mono)
  ultimately show False by simp
qed

lemma selection_state_sorted:
  assumes "sorted arr"
  shows "i \<le> length arr \<Longrightarrow> selection_state arr i = (arr, [])"
proof (induction i)
  case 0
  show ?case by (rule selection_state_0)
next
  case (Suc i)
  then have "selection_state arr i = (arr, [])" and "i < length arr" by simp_all
  then show ?case
    using selection_scan_sorted[OF assms, of i]
    by (simp add: selection_state_Suc selection_body_result)
qed

lemma insertion_state_sorted:
  assumes "sorted arr"
  shows "1 \<le> i \<Longrightarrow> i \<le> length arr \<Longrightarrow> insertion_state arr i = (arr, [])"
proof (induction i)
  case 0
  then show ?case by simp
next
  case (Suc i)
  show ?case
  proof (cases "i = 0")
    case True
    then show ?thesis by (simp add: insertion_state_1)
  next
    case False
    with Suc have st: "insertion_state arr i = (arr, [])" and i: "1 \<le> i" "i < length arr" by simp_all
    from assms i have "arr ! nat (int i - 1) \<le> arr ! i"
      by (simp add: sorted_iff_nth_mono nat_diff_distrib)
    then have w: "insertion_while (arr ! i) (int i - 1) arr [] = (int i - 1, arr, [])"
      by (subst insertion_while.simps) simp
    have "insertion_body i (arr, []) = (arr, [])"
      using i by (simp add: insertion_body_def Let_def w)
    with st i show ?thesis by (simp add: insertion_state_Suc)
  qed
qed

lemma bubble_pass_no_swap:
  assumes "\<not> bubble_pass_swapped arr"
  shows "bubble_pass arr = (arr, False, [])"
proof -
  obtain a s c where p: "bubble_for (length arr) 0 arr False [] = (a, s, c)"
    by (cases "bubble_for (length arr) 0 arr False []") auto
  with assms have "\<not> s" by (simp add: bubble_pass_swapped_def bubble_pass_def)
  with bubble_for_pass(4)[OF order_refl p] p show ?thesis by (simp add: bubble_pass_def)
qed

section \<open>The array generator: rounding and range\<close>

lemma round_even_bounds:
  assumes "0 \<le> a"
  shows "a div 2 ^ s \<le> round_even a s" and "round_even a s \<le> a div 2 ^ s + 1"
    and "round_even a s \<noteq> a div 2 ^ s \<Longrightarrow> 2 ^ s \<le> 2 * (a mod 2 ^ s)"
  by (auto simp: round_even_def Let_def split: if_splits)

lemma double_int_small:
  assumes "\<bar>z\<bar> < 2 ^ 53"
  shows "double_int z = z"
proof -
  have "bitlen \<bar>z\<bar> \<le> 53" using assms by (simp add: bitlen_le_iff_power)
  then show ?thesis by (simp add: double_int_def to_double_def math_floor_def)
qed

lemma div_less_of_less_mult:
  fixes a k p :: int
  assumes "a < k * p" and "0 < p"
  shows "a div p < k"
proof (rule ccontr)
  assume "\<not> a div p < k"
  then have "k \<le> a div p" by simp
  then have "k * p \<le> a div p * p" using assms(2) by (simp add: mult_right_mono)
  moreover have "0 \<le> a mod p" using assms(2) by simp
  moreover have "a div p * p + a mod p = a" by simp
  ultimately show False using assms(1) by linarith
qed

text \<open>The product of a random Number and the size of the range, rounded, is below the size.\<close>

lemma product_below_range:
  assumes m: "0 < m" "m < 2 ^ 53" and e: "e < 0" and mn: "m < 2 ^ nat (- e)"
    and M: "1 \<le> M" "M < 2 ^ 53"
  shows "0 \<le> math_floor (to_double (m * M) e)" and "math_floor (to_double (m * M) e) < M"
proof -
  define n where "n = nat (- e)"
  define A where "A = m * M"
  define N :: int where "N = 2 ^ n"
  from m M have A0: "0 < A" by (simp add: A_def)
  from e have en: "e = - int n" by (simp add: n_def)
  have N0: "0 < N" by (simp add: N_def)
  from mn have mN: "m + 1 \<le> N" by (simp add: N_def n_def)
  have AN: "A + M \<le> M * N"
  proof -
    have "(m + 1) * M \<le> N * M" using mN M(1) by (intro mult_right_mono) simp_all
    then show ?thesis by (simp add: A_def algebra_simps)
  qed
  with M(1) have AltN: "A < M * N" by simp
  show "0 \<le> math_floor (to_double (m * M) e)" and "math_floor (to_double (m * M) e) < M"
  proof -
    have "0 \<le> math_floor (to_double A e) \<and> math_floor (to_double A e) < M"
    proof (cases "bitlen A \<le> 53")
      case True
      with A0 have td: "to_double A e = Number A e" by (simp add: to_double_def)
      have "math_floor (Number A e) = A div N" using e by (simp add: math_floor_def N_def n_def)
      moreover have "A div N < M" using AltN N0 by (rule div_less_of_less_mult)
      moreover have "0 \<le> A div N" using A0 N0 by (simp add: pos_imp_zdiv_nonneg_iff)
      ultimately show ?thesis by (simp add: td)
    next
      case False
      define s where "s = nat (bitlen A - 53)"
      define P :: int where "P = 2 ^ s"
      from False have s1: "1 \<le> s" and bs: "bitlen A = 53 + int s" by (simp_all add: s_def)
      from bitlen_bounds[OF A0] bs have lo: "2 ^ (52 + s) \<le> A" and hi: "A < 2 ^ (53 + s)"
        by (simp_all add: nat_add_distrib)
      have P0: "0 < P" by (simp add: P_def)
      from lo have lo': "2 ^ 52 * P \<le> A" by (simp add: P_def power_add)
      have A53: "A < 2 ^ 53 * M"
      proof -
        have "m * M < 2 ^ 53 * M" using m(2) M(1) by (intro mult_strict_right_mono) simp_all
        then show ?thesis by (simp add: A_def)
      qed
      from lo' A53 have PM: "P < 2 * M" by simp
      have sn: "s \<le> n"
      proof -
        have "M * N < 2 ^ 53 * N" using M(2) N0 by (intro mult_strict_right_mono) simp_all
        with AltN lo' have "2 ^ 52 * P < 2 ^ 53 * N" by linarith
        then have "P < 2 * N" by simp
        then have "(2::int) ^ s < 2 ^ Suc n" by (simp add: P_def N_def)
        then have "s < Suc n" by (rule power_less_imp_less_exp[rotated]) simp
        then show ?thesis by simp
      qed
      define t where "t = n - s"
      define T :: int where "T = 2 ^ t"
      have T0: "0 < T" by (simp add: T_def)
      have NTP: "N = T * P" using sn by (simp add: N_def T_def P_def t_def power_add[symmetric])
      define q0 where "q0 = A div P"
      define r where "r = A mod P"
      define q where "q = round_even A s"
      have Aqr: "A = q0 * P + r" by (simp add: q0_def r_def)
      have r0: "0 \<le> r" using P0 by (simp add: r_def)
      have AK: "A < (M * T) * P" using AltN NTP by (simp add: mult.assoc)
      then have q0K: "q0 < M * T" unfolding q0_def using P0 by (rule div_less_of_less_mult)
      from A0 have Age: "0 \<le> A" by simp
      note rb = round_even_bounds[OF Age, of s, folded P_def q0_def r_def q_def]
      have qK: "q < M * T"
      proof (cases "q = q0")
        case True
        with q0K show ?thesis by simp
      next
        case False
        with rb have up: "q \<le> q0 + 1" and half: "P \<le> 2 * r" by simp_all
        show ?thesis
        proof (rule ccontr)
          assume "\<not> q < M * T"
          with up q0K have q0e: "q0 = M * T - 1" by simp
          have "A = M * T * P - P + r" unfolding Aqr q0e by (simp add: algebra_simps)
          with half have "2 * (M * T * P) - P \<le> 2 * A" by simp
          moreover from AN NTP have "A + M \<le> M * T * P" by (simp add: mult.assoc)
          ultimately have "2 * M \<le> P" by simp
          with PM show False by simp
        qed
      qed
      have q0': "0 \<le> q0" using A0 P0 by (simp add: q0_def pos_imp_zdiv_nonneg_iff)
      with rb(1) have qge: "0 \<le> q" by simp
      have td: "to_double A e = Number q (e + int s)"
        using False A0 by (simp add: to_double_def q_def s_def Let_def)
      have es: "e + int s = - int t" using sn by (simp add: en t_def)
      have mf: "math_floor (Number q (e + int s)) = q div T"
      proof (cases "t = 0")
        case True
        then show ?thesis by (simp add: math_floor_def es T_def)
      next
        case False
        then show ?thesis by (simp add: math_floor_def es T_def)
      qed
      have "q div T < M" using qK T0 by (rule div_less_of_less_mult)
      moreover have "0 \<le> q div T" using qge T0 by (simp add: pos_imp_zdiv_nonneg_iff)
      ultimately show ?thesis by (simp add: td mf)
    qed
    then show "0 \<le> math_floor (to_double (m * M) e)" and "math_floor (to_double (m * M) e) < M"
      by (simp_all add: A_def)
  qed
qed


lemma generated_element_range:
  assumes r: "unit_double r" and le: "min_value \<le> max_value"
    and lo: "- (2 ^ 51) \<le> min_value" and hi: "max_value \<le> 2 ^ 51"
  shows "min_value \<le> double_int (math_floor (to_double
            (mantissa r * double_int (double_int (max_value - min_value) + 1)) (exponent r)) + min_value)"
    and "double_int (math_floor (to_double
            (mantissa r * double_int (double_int (max_value - min_value) + 1)) (exponent r)) + min_value)
         \<le> max_value"
proof -
  define M where "M = max_value - min_value + 1"
  have "\<bar>max_value - min_value\<bar> < 2 ^ 53" using le lo hi by simp
  then have d1: "double_int (max_value - min_value) = max_value - min_value" by (rule double_int_small)
  have "\<bar>max_value - min_value + 1\<bar> < 2 ^ 53" using le lo hi by simp
  then have d2: "double_int (max_value - min_value + 1) = M" unfolding M_def by (rule double_int_small)
  have M: "1 \<le> M" "M < 2 ^ 53" using le lo hi by (simp_all add: M_def)
  define f where "f = math_floor (to_double (mantissa r * M) (exponent r))"
  have f: "0 \<le> f \<and> f < M"
  proof (cases "mantissa r = 0")
    case True
    then show ?thesis using M by (simp add: f_def to_double_def math_floor_def)
  next
    case False
    with r have "0 < mantissa r" "mantissa r < 2 ^ 53" "exponent r < 0"
      "mantissa r < 2 ^ nat (- exponent r)"
      by (simp_all add: unit_double_def)
    from product_below_range[OF this M] show ?thesis by (simp add: f_def)
  qed
  then have "\<bar>f + min_value\<bar> < 2 ^ 53" using lo hi by (simp add: M_def abs_less_iff)
  then have d3: "double_int (f + min_value) = f + min_value" by (rule double_int_small)
  have el: "double_int (math_floor (to_double
            (mantissa r * double_int (double_int (max_value - min_value) + 1)) (exponent r)) + min_value)
         = f + min_value"
    by (simp add: d1 d2 f_def[symmetric] d3)
  from f show "min_value \<le> double_int (math_floor (to_double
            (mantissa r * double_int (double_int (max_value - min_value) + 1)) (exponent r)) + min_value)"
    unfolding el by simp
  from f show "double_int (math_floor (to_double
            (mantissa r * double_int (double_int (max_value - min_value) + 1)) (exponent r)) + min_value)
         \<le> max_value"
    unfolding el by (simp add: M_def)
qed

section \<open>The page: the step counter\<close>

lemma reachable_sample_busy: "reachable sample_busy"
  unfolding sample_busy_def sample_page_def by (intro reachable.intros)

lemma currentStep_zero_initial: "currentStep_zero (initial rnd)"
  by (simp add: currentStep_zero_def initial_def)

lemma currentStep_zero_resetArray: "currentStep_zero w \<Longrightarrow> currentStep_zero (resetArray type w)"
  by (simp add: currentStep_zero_def resetArray_def Let_def)

lemma currentStep_zero_initialize: "currentStep_zero w \<Longrightarrow> currentStep_zero (initializeVisualizations w)"
  by (simp add: initializeVisualizations_def currentStep_zero_resetArray)

lemma currentStep_zero_startSort: "currentStep_zero w \<Longrightarrow> currentStep_zero (startSort type procedure w)"
  by (auto simp: currentStep_zero_def startSort_def split: option.splits prod.splits list.splits)

lemma currentStep_zero_resume: "currentStep_zero w \<Longrightarrow> currentStep_zero (resume k w)"
  by (auto simp: currentStep_zero_def resume_def split: run.splits list.splits)

lemma currentStep_zero_step: "currentStep_zero w \<Longrightarrow> currentStep_zero (step w e)"
proof (cases e)
  case (Click b)
  assume "currentStep_zero w"
  with Click show ?thesis
    by (cases b) (simp_all add: currentStep_zero_startSort currentStep_zero_resetArray)
next
  case (Timer k)
  assume "currentStep_zero w"
  with Timer show ?thesis by (simp add: currentStep_zero_resume)
qed

section \<open>Every write is shown; the runs of a page\<close>

lemma bubble_for_shown:
  assumes "arr = shown arr0 sc"
  shows "case bubble_for n i arr sw sc of (a, s, c) \<Rightarrow> a = shown arr0 c"
proof -
  have "\<exists>k. \<not> int k < int n - 1 \<and>
      (case bubble_for n i arr sw sc of (a, s, c) \<Rightarrow> a = shown arr0 c)"
  proof (rule bubble_for_rule[where I = "\<lambda>i a s c. a = shown arr0 c"])
    show "arr = shown arr0 sc" by (rule assms)
  next
    fix i a s c
    show "a[i := a ! (i + 1), i + 1 := a ! i] =
        shown arr0 (createBars Bubble (a[i := a ! (i + 1), i + 1 := a ! i]) [i, i + 1] c)"
      by (simp add: shown_def createBars_def)
  next
    fix i a s c
    assume "a = shown arr0 c"
    then show "a = shown arr0 c" .
  qed
  then show ?thesis by (elim exE conjE)
qed

lemma bubble_do_shown:
  assumes "bubble_do n arr sc = Some y"
  shows "arr = shown arr0 sc \<longrightarrow> fst y = shown arr0 (snd y)"
proof (rule bubble_do.raw_induct[where P = "\<lambda>n arr sc y. arr = shown arr0 sc \<longrightarrow> fst y = shown arr0 (snd y)",
      OF _ assms])
  fix bd :: "nat \<Rightarrow> int list \<Rightarrow> render list \<Rightarrow> (int list \<times> render list) option"
  fix n arr sc y
  assume IH: "\<And>n arr sc y. bd n arr sc = Some y \<Longrightarrow> arr = shown arr0 sc \<longrightarrow> fst y = shown arr0 (snd y)"
    and eq: "(case bubble_for n 0 arr False sc of
               (arr', swapped, screen') \<Rightarrow> if swapped then bd n arr' screen' else Some (arr', screen')) = Some y"
  show "arr = shown arr0 sc \<longrightarrow> fst y = shown arr0 (snd y)"
  proof
    assume sh: "arr = shown arr0 sc"
    obtain a1 s1 c1 where p: "bubble_for n 0 arr False sc = (a1, s1, c1)"
      by (cases "bubble_for n 0 arr False sc") auto
    from bubble_for_shown[OF sh, of n 0 False] p have sh1: "a1 = shown arr0 c1" by simp
    show "fst y = shown arr0 (snd y)"
    proof (cases s1)
      case True
      with eq p have "bd n a1 c1 = Some y" by simp
      from IH[OF this] sh1 show ?thesis by simp
    next
      case False
      with eq p sh1 show ?thesis by auto
    qed
  qed
qed

lemma bubbleSort_shown: "bubbleSort arr = Some (a, c) \<Longrightarrow> a = shown arr c"
  using bubble_do_shown[of "length arr" arr "[]" "(a, c)" arr]
  by (simp add: bubbleSort_def shown_def)

lemma selection_state_shown: "fst (selection_state arr i) = shown arr (snd (selection_state arr i))"
proof (induction i)
  case 0
  show ?case by (simp add: selection_state_0 shown_def)
next
  case (Suc i)
  obtain a c where st: "selection_state arr i = (a, c)" by (cases "selection_state arr i") auto
  with Suc show ?case
    by (simp add: selection_state_Suc selection_body_result shown_def)
qed

lemma selectionSort_shown: "fst (selectionSort arr) = shown arr (snd (selectionSort arr))"
  by (simp add: selectionSort_state selection_state_shown)

lemma insertion_state_shown:
  "i \<le> length arr \<Longrightarrow> fst (insertion_state arr i) = shown arr (snd (insertion_state arr i))"
proof (induction i)
  case 0
  show ?case by (simp add: insertion_state_def shown_def)
next
  case (Suc i)
  show ?case
  proof (cases "i = 0")
    case True
    then show ?thesis by (simp add: insertion_state_1 shown_def)
  next
    case False
    obtain a c where st: "insertion_state arr i = (a, c)" by (cases "insertion_state arr i") auto
    with Suc have ih: "a = shown arr c" and i: "1 \<le> i" "i < length arr" using False by simp_all
    from insertion_state_inv[OF i(1), of arr] i(2) st have ia: "i < length a"
      by (simp add: insertion_inv_def)
    obtain j a1 c1 where wh: "insertion_while (a ! i) (int i - 1) a c = (j, a1, c1)"
      by (cases "insertion_while (a ! i) (int i - 1) a c") auto
    note T = insertion_while_facts(1)[OF ia wh]
    have nx: "insertion_state arr (Suc i) = (a1[nat (j + 1) := a ! i],
        c1 @ (if nat (j + 1) < i then [(Insertion, a1[nat (j + 1) := a ! i], [nat (j + 1)])] else []))"
      using i by (simp add: insertion_state_Suc st insertion_body_result[OF ia wh])
    show ?thesis
    proof (cases "j = int i - 1")
      case True
      with T have "a1 = a" "c1 = c" by (simp_all add: trace_inv_def)
      with True ih i show ?thesis by (simp add: nx)
    next
      case ne: False
      with T have "nat (j + 1) < i" by (auto simp: trace_inv_def)
      then show ?thesis by (simp add: nx shown_def)
    qed
  qed
qed

lemma insertionSort_shown: "fst (insertionSort arr) = shown arr (snd (insertionSort arr))"
  by (simp add: insertionSort_state insertion_state_shown)

lemma no_endless_initial: "no_endless (initial rnd)"
  by (simp add: no_endless_def initial_def)

lemma no_endless_resetArray: "no_endless w \<Longrightarrow> no_endless (resetArray type w)"
  by (simp add: no_endless_def resetArray_def Let_def)

lemma no_endless_initialize: "no_endless w \<Longrightarrow> no_endless (initializeVisualizations w)"
  by (simp add: initializeVisualizations_def no_endless_resetArray)

lemma no_endless_startSort:
  "no_endless w \<Longrightarrow> procedure (array (sortStates w type)) \<noteq> None \<Longrightarrow>
   no_endless (startSort type procedure w)"
  by (auto simp: no_endless_def startSort_def split: option.splits prod.splits list.splits)

lemma no_endless_resume: "no_endless w \<Longrightarrow> no_endless (resume k w)"
proof -
  assume n: "no_endless w"
  have b: "\<And>x y. x \<in> set ((suspended w)[k := y]) \<Longrightarrow> x = y \<or> x \<in> set (suspended w)"
    using set_update_subset_insert[of "suspended w" k] by auto
  from n show ?thesis
    by (auto simp: no_endless_def resume_def split: run.splits list.splits
          dest: in_set_takeD in_set_dropD b)
qed

lemma no_endless_step: "no_endless w \<Longrightarrow> no_endless (step w e)"
proof (cases e)
  case (Click b)
  assume n: "no_endless w"
  have "bubbleSort (array (sortStates w Bubble)) \<noteq> None"
    using bubbleSort_sorted_mset[of "array (sortStates w Bubble)"] by auto
  with Click n show ?thesis
    by (cases b) (simp_all add: no_endless_startSort no_endless_resetArray)
next
  case (Timer k)
  assume "no_endless w"
  with Timer show ?thesis by (simp add: no_endless_resume)
qed

lemma reachable_no_endless: "reachable w \<Longrightarrow> Endless type \<notin> set (suspended w)"
proof -
  assume "reachable w"
  then have "no_endless w"
    by (induction rule: reachable.induct)
       (simp_all add: no_endless_initialize no_endless_initial no_endless_step)
  then show ?thesis by (simp add: no_endless_def)
qed

lemma shown_Cons: "shown arr (r # rs) = shown (fst (snd r)) rs"
  by (simp add: shown_def)

lemma shown_Nil: "shown arr [] = arr"
  by (simp add: shown_def)

lemma run_of_type_sorting:
  "single_flight w \<Longrightarrow> r \<in> set (suspended w) \<Longrightarrow> isSorting (sortStates w (run_type r))"
  by (auto simp: single_flight_def)

lemma runs_ok_initial: "runs_ok (initial rnd)"
  by (simp add: runs_ok_def initial_def)

lemma runs_ok_resetArray:
  assumes "single_flight w" and "runs_ok w"
  shows "runs_ok (resetArray type w)"
proof (cases "isSorting (sortStates w type)")
  case True
  with assms(2) show ?thesis by (simp add: resetArray_def)
next
  case False
  have "\<And>t rs final. Run t rs final \<in> set (suspended w) \<Longrightarrow> t \<noteq> type"
    using run_of_type_sorting[OF assms(1)] False by fastforce
  with assms(2) False show ?thesis
    by (auto simp: runs_ok_def resetArray_def Let_def)
qed

lemma run_ok_initialize: "single_flight w \<and> runs_ok w \<Longrightarrow>
    single_flight (initializeVisualizations w) \<and> runs_ok (initializeVisualizations w)"
  by (simp add: initializeVisualizations_def single_flight_resetArray runs_ok_resetArray)

lemma runs_ok_startSort:
  assumes "single_flight w" and "runs_ok w"
    and p: "\<And>final rs. procedure (array (sortStates w type)) = Some (final, rs) \<Longrightarrow>
              final = shown (array (sortStates w type)) rs"
  shows "runs_ok (startSort type procedure w)"
proof (cases "isSorting (sortStates w type)")
  case True
  with assms(2) show ?thesis by (simp add: startSort_def)
next
  case False
  have ne: "\<And>t rs final. Run t rs final \<in> set (suspended w) \<Longrightarrow> t \<noteq> type"
    using run_of_type_sorting[OF assms(1)] False by fastforce
  show ?thesis
  proof (cases "procedure (array (sortStates w type))")
    case None
    with assms(2) False ne show ?thesis
      by (auto simp: runs_ok_def startSort_def)
  next
    case (Some y)
    obtain final rs where y: "y = (final, rs)" by (cases y) auto
    from p Some y have f: "final = shown (array (sortStates w type)) rs" by simp
    show ?thesis
    proof (cases rs)
      case Nil
      with assms(2) False ne Some y show ?thesis
        by (auto simp: runs_ok_def startSort_def)
    next
      case (Cons r rs')
      with f have "final = shown (fst (snd r)) rs'" by (simp add: shown_Cons)
      with assms(2) False ne Some y Cons show ?thesis
        by (auto simp: runs_ok_def startSort_def)
    qed
  qed
qed

lemma other_run_other_type:
  assumes "distinct (map run_type xs)" and "k < length xs" and "j < length xs" and "j \<noteq> k"
  shows "run_type (xs ! j) \<noteq> run_type (xs ! k)"
  using assms by (simp add: distinct_conv_nth)

lemma runs_ok_resume:
  assumes sf: "single_flight w" and ok: "runs_ok w"
  shows "runs_ok (resume k w)"
proof (cases "k < length (suspended w)")
  case False
  with ok show ?thesis by (simp add: resume_def)
next
  case k: True
  from sf have d: "distinct (map run_type (suspended w))" by (simp add: single_flight_def)
  show ?thesis
  proof (cases "suspended w ! k")
    case (Endless type)
    with ok k show ?thesis by (simp add: resume_def)
  next
    case (Run type rs final)
    from Run k have mem: "Run type rs final \<in> set (suspended w)" by (metis nth_mem)
    with ok have f: "final = shown (array (sortStates w type)) rs" by (simp add: runs_ok_def)
    have other: "\<And>j. j < length (suspended w) \<Longrightarrow> j \<noteq> k \<Longrightarrow> run_type (suspended w ! j) \<noteq> type"
      using other_run_other_type[OF d k] Run by simp
    show ?thesis
    proof (cases rs)
      case Nil
      from Run Nil k have e: "resume k w =
          w\<lparr>sortStates := (sortStates w)(type := (sortStates w type)\<lparr>array := final, isSorting := False\<rparr>),
            suspended := take k (suspended w) @ drop (k + 1) (suspended w)\<rparr>"
        by (simp add: resume_def)
      have "\<And>t rs' f'. Run t rs' f' \<in> set (take k (suspended w) @ drop (k + 1) (suspended w)) \<Longrightarrow>
          t \<noteq> type \<and> Run t rs' f' \<in> set (suspended w)"
      proof -
        fix t rs' f'
        assume "Run t rs' f' \<in> set (take k (suspended w) @ drop (k + 1) (suspended w))"
        then have m: "Run t rs' f' \<in> set (take k (suspended w) @ drop (k + 1) (suspended w))" .
        have "run_type (Run t rs' f') \<in> run_type ` set (take k (suspended w) @ drop (k + 1) (suspended w))"
          using m by (rule imageI)
        then have x: "t \<in> set (map run_type (take k (suspended w) @ drop (k + 1) (suspended w)))"
          by (simp only: set_map run.sel)
        from m have y: "Run t rs' f' \<in> set (suspended w)"
          by (auto dest: in_set_takeD in_set_dropD)
        from distinct_remove_nth(2)[OF d k] Run have "type \<notin> set (map run_type (take k (suspended w) @ drop (k + 1) (suspended w)))"
          by simp
        with x y show "t \<noteq> type \<and> Run t rs' f' \<in> set (suspended w)" by auto
      qed
      with ok show ?thesis unfolding e runs_ok_def by auto
    next
      case (Cons r rs')
      from Run Cons k have e: "resume k w =
          w\<lparr>sortStates := (sortStates w)(type := (sortStates w type)\<lparr>array := fst (snd r)\<rparr>),
            screen := screen w @ [r],
            suspended := (suspended w)[k := Run type rs' final]\<rparr>"
        by (simp add: resume_def)
      from f Cons have f': "final = shown (fst (snd r)) rs'" by (simp add: shown_Cons)
      have "\<And>t rs'' f''. Run t rs'' f'' \<in> set ((suspended w)[k := Run type rs' final]) \<Longrightarrow>
          (t = type \<and> rs'' = rs' \<and> f'' = final) \<or> (t \<noteq> type \<and> Run t rs'' f'' \<in> set (suspended w))"
      proof -
        fix t rs'' f''
        assume "Run t rs'' f'' \<in> set ((suspended w)[k := Run type rs' final])"
        then obtain j where j: "j < length (suspended w)"
          and x: "(suspended w)[k := Run type rs' final] ! j = Run t rs'' f''"
          by (auto simp: in_set_conv_nth)
        show "(t = type \<and> rs'' = rs' \<and> f'' = final) \<or> (t \<noteq> type \<and> Run t rs'' f'' \<in> set (suspended w))"
        proof (cases "j = k")
          case True
          with x k show ?thesis by simp
        next
          case False
          with x have y: "suspended w ! j = Run t rs'' f''" by simp
          with other[OF j False] have "t \<noteq> type" by simp
          moreover from y j have "Run t rs'' f'' \<in> set (suspended w)" by (metis nth_mem)
          ultimately show ?thesis by simp
        qed
      qed
      with ok f' show ?thesis unfolding e runs_ok_def by (simp; blast)
    qed
  qed
qed

lemma runs_ok_step:
  assumes "single_flight w" and "runs_ok w"
  shows "runs_ok (step w e)"
proof (cases e)
  case (Click b)
  have 1: "\<And>final rs. bubbleSort (array (sortStates w Bubble)) = Some (final, rs) \<Longrightarrow>
      final = shown (array (sortStates w Bubble)) rs"
    by (rule bubbleSort_shown)
  have 2: "\<And>final rs. Some (selectionSort (array (sortStates w Selection))) = Some (final, rs) \<Longrightarrow>
      final = shown (array (sortStates w Selection)) rs"
    using selectionSort_shown[of "array (sortStates w Selection)"] by simp
  have 3: "\<And>final rs. Some (insertionSort (array (sortStates w Insertion))) = Some (final, rs) \<Longrightarrow>
      final = shown (array (sortStates w Insertion)) rs"
    using insertionSort_shown[of "array (sortStates w Insertion)"] by simp
  show ?thesis
  proof (cases b)
    case bubble_sort_start
    with Click show ?thesis by (simp add: runs_ok_startSort[OF assms 1])
  next
    case selection_sort_start
    with Click show ?thesis by (simp add: runs_ok_startSort[OF assms 2])
  next
    case insertion_sort_start
    with Click show ?thesis by (simp add: runs_ok_startSort[OF assms 3])
  qed (simp_all add: Click runs_ok_resetArray[OF assms])
next
  case (Timer k)
  with assms show ?thesis by (simp add: runs_ok_resume)
qed

lemma reachable_runs_ok:
  "reachable w \<Longrightarrow> Run type rs final \<in> set (suspended w) \<Longrightarrow>
   final = shown (array (sortStates w type)) rs"
proof -
  assume "reachable w"
  then have "single_flight w \<and> runs_ok w"
  proof (induction rule: reachable.induct)
    case (page_load rnd)
    show ?case
      by (rule run_ok_initialize) (simp add: single_flight_initial runs_ok_initial)
  next
    case (event w e)
    then show ?case by (simp add: single_flight_step runs_ok_step)
  qed
  moreover assume "Run type rs final \<in> set (suspended w)"
  ultimately show ?thesis by (simp add: runs_ok_def)
qed

section \<open>The properties of the specification\<close>

text \<open>
  C1, as the specification states it: each of the five variants, run to completion on any
  array, leaves a non-decreasing permutation of that array. The file has no procedure for
  quick sort (nor for merge sort), so nothing sorts the array \<open>[2, 1]\<close> of that variant.
\<close>

theorem sorts_all_five_counterexample: "\<not> run_sorts Quick [2, 1]"
  by (simp add: run_sorts_def sortProcedure_def)

text \<open>
  C1, amended: bubble, selection and insertion sort return on every array of integers and
  leave a non-decreasing permutation of it; quick and merge have no procedure.
\<close>

theorem three_procedures_sort:
  "run_sorts Bubble arr \<and> run_sorts Selection arr \<and> run_sorts Insertion arr \<and>
   sortProcedure Quick = None \<and> sortProcedure Merge = None"
  using bubbleSort_sorted_mset[of arr] selectionSort_sorted_mset[of arr] insertionSort_sorted_mset[of arr]
  by (auto simp: run_sorts_def sortProcedure_def split: prod.splits)

theorem three_procedures_sort_witness:
  "run_sorts Bubble [3, 1, 2] \<and> run_sorts Selection [3, 1, 2] \<and> run_sorts Insertion [3, 1, 2]"
  using three_procedures_sort[of "[3, 1, 2]"] by simp

text \<open>
  C4, as the specification states it: insertion sort on \<open>[5, 3, 8, 1]\<close> makes five render
  calls, the first one highlighting \<open>0\<close> and \<open>1\<close> on the array \<open>[3, 5, 8, 1]\<close>. The
  procedure makes six calls, and the first one shows \<open>[5, 5, 8, 1]\<close>.
\<close>

theorem insertion_scenario_counterexample:
  "length (snd (insertionSort [5, 3, 8, 1])) \<noteq> 5 \<and>
   snd (insertionSort [5, 3, 8, 1]) ! 0 \<noteq> (Insertion, [3, 5, 8, 1], [0, 1])"
  by code_simp

text \<open>
  C4, amended: the six render calls of insertion sort on \<open>[5, 3, 8, 1]\<close>, in order. The
  shift of \<open>5\<close> is shown before \<open>3\<close> is written (the array is \<open>[5, 5, 8, 1]\<close>), then
  \<open>3\<close> settles at index \<open>0\<close>; nothing is shown for \<open>8\<close>; \<open>1\<close> takes three shifts and
  settles at index \<open>0\<close>.
\<close>

theorem insertion_scenario:
  "insertionSort [5, 3, 8, 1] =
     ([1, 3, 5, 8],
      [(Insertion, [5, 5, 8, 1], [0, 1]), (Insertion, [3, 5, 8, 1], [0]),
       (Insertion, [3, 5, 8, 8], [2, 3]), (Insertion, [3, 5, 5, 8], [1, 2]),
       (Insertion, [3, 3, 5, 8], [0, 1]), (Insertion, [1, 3, 5, 8], [0])])"
  by code_simp

text \<open>
  C5: when the outer loop of selection sort reaches a position \<open>i\<close> between \<open>0\<close> and
  \<open>n - 2\<close>, the index it finds is the first index of the least element from \<open>i\<close> on; if
  that index is not \<open>i\<close> the two elements are swapped and one render call highlights \<open>i\<close>
  and that index, otherwise nothing is written and nothing is rendered. The number of
  render calls of a run is the number of positions at which a swap was needed.
\<close>

theorem selection_render_iff_swap:
  "(\<forall>i. i + 1 < length arr \<longrightarrow>
      (case selection_state arr i of
         (a, c) \<Rightarrow>
           i \<le> selection_min arr i \<and> selection_min arr i < length arr \<and>
           (\<forall>k. i \<le> k \<and> k < length arr \<longrightarrow> a ! selection_min arr i \<le> a ! k) \<and>
           (\<forall>k. i \<le> k \<and> k < selection_min arr i \<longrightarrow> a ! selection_min arr i < a ! k) \<and>
           selection_state arr (i + 1) =
             (if selection_min arr i \<noteq> i then
                (a[i := a ! selection_min arr i, selection_min arr i := a ! i],
                 c @ [(Selection, a[i := a ! selection_min arr i, selection_min arr i := a ! i],
                       [i, selection_min arr i])])
              else (a, c)))) \<and>
   selectionSort arr = selection_state arr (length arr - 1) \<and>
   length (snd (selectionSort arr)) =
     length (filter (\<lambda>i. selection_min arr i \<noteq> i) [0..<length arr - 1])"
proof (intro conjI allI impI)
  fix i assume i: "i + 1 < length arr"
  obtain a c where st: "selection_state arr i = (a, c)" by (cases "selection_state arr i") auto
  have m: "selection_min arr i = selection_scan (length arr) (i + 1) a i"
    by (simp add: selection_min_def st)
  from i have "i < length arr" by simp
  note sc = selection_scan_from[OF m this]
  have nx: "selection_state arr (i + 1) =
      (if selection_min arr i \<noteq> i then
         (a[i := a ! selection_min arr i, selection_min arr i := a ! i],
          c @ [(Selection, a[i := a ! selection_min arr i, selection_min arr i := a ! i],
                [i, selection_min arr i])])
       else (a, c))"
    using selection_state_Suc[of arr i] by (simp add: st selection_body_result m)
  from sc nx show "case selection_state arr i of
         (a, c) \<Rightarrow>
           i \<le> selection_min arr i \<and> selection_min arr i < length arr \<and>
           (\<forall>k. i \<le> k \<and> k < length arr \<longrightarrow> a ! selection_min arr i \<le> a ! k) \<and>
           (\<forall>k. i \<le> k \<and> k < selection_min arr i \<longrightarrow> a ! selection_min arr i < a ! k) \<and>
           selection_state arr (i + 1) =
             (if selection_min arr i \<noteq> i then
                (a[i := a ! selection_min arr i, selection_min arr i := a ! i],
                 c @ [(Selection, a[i := a ! selection_min arr i, selection_min arr i := a ! i],
                       [i, selection_min arr i])])
              else (a, c))"
    unfolding st by simp
next
  show "selectionSort arr = selection_state arr (length arr - 1)" by (rule selectionSort_state)
next
  show "length (snd (selectionSort arr)) =
     length (filter (\<lambda>i. selection_min arr i \<noteq> i) [0..<length arr - 1])"
    by (simp add: selectionSort_state selection_state_renders)
qed

theorem selection_render_iff_swap_witness:
  "0 + 1 < length [5, 3, 8, 1 :: int] \<and>
   selection_state [5, 3, 8, 1] 0 = ([5, 3, 8, 1], []) \<and>
   selection_min [5, 3, 8, 1] 0 = 3 \<and>
   selection_state [5, 3, 8, 1] (0 + 1) = ([1, 3, 8, 5], [(Selection, [1, 3, 8, 5], [0, 3])]) \<and>
   selection_min [5, 3, 8, 1] 1 = 1 \<and>
   selection_state [5, 3, 8, 1] (1 + 1) = selection_state [5, 3, 8, 1] 1 \<and>
   length (snd (selectionSort [5, 3, 8, 1])) = 2"
proof -
  have h: "0 + 1 < length [5, 3, 8, 1 :: int]" "1 + 1 < length [5, 3, 8, 1 :: int]" by simp_all
  have e: "selection_state [5, 3, 8, 1] 0 = ([5, 3, 8, 1], [])"
    "selection_min [5, 3, 8, 1] 0 = 3" "selection_min [5, 3, 8, 1] 1 = 1"
    "filter (\<lambda>i. selection_min [5, 3, 8, 1] i \<noteq> i) [0..<length [5, 3, 8, 1 :: int] - 1] = [0, 2]"
    by code_simp+
  note t = selection_render_iff_swap[of "[5, 3, 8, 1]"]
  from t have a: "\<And>i. i + 1 < length [5, 3, 8, 1 :: int] \<Longrightarrow>
      (case selection_state [5, 3, 8, 1] i of
         (a, c) \<Rightarrow> selection_state [5, 3, 8, 1] (i + 1) =
             (if selection_min [5, 3, 8, 1] i \<noteq> i then
                (a[i := a ! selection_min [5, 3, 8, 1] i, selection_min [5, 3, 8, 1] i := a ! i],
                 c @ [(Selection, a[i := a ! selection_min [5, 3, 8, 1] i, selection_min [5, 3, 8, 1] i := a ! i],
                       [i, selection_min [5, 3, 8, 1] i])])
              else (a, c)))"
    by (auto split: prod.splits)
  from t have l: "length (snd (selectionSort [5, 3, 8, 1])) =
     length (filter (\<lambda>i. selection_min [5, 3, 8, 1] i \<noteq> i) [0..<length [5, 3, 8, 1 :: int] - 1])"
    by blast
  from a[OF h(1)] have s1: "selection_state [5, 3, 8, 1] (0 + 1) = ([1, 3, 8, 5], [(Selection, [1, 3, 8, 5], [0, 3])])"
    unfolding e by simp
  from a[OF h(2)] have s2: "selection_state [5, 3, 8, 1] (1 + 1) = selection_state [5, 3, 8, 1] 1"
    unfolding e by (simp split: prod.splits)
  from l have "length (snd (selectionSort [5, 3, 8, 1])) = 2" unfolding e by simp
  with h e s1 s2 show ?thesis by simp
qed

text \<open>
  C6: when the outer loop of insertion sort reaches a position \<open>i\<close> between \<open>1\<close> and
  \<open>n - 1\<close>, the shift loop makes one render call for each shift, highlighting the two
  indices of the shift, from \<open>i - 1\<close> and \<open>i\<close> downwards. After the loop one more render
  call, highlighting the index where the key comes to rest, is made if and only if there
  was at least one shift; without a shift the array is left as it is and nothing is
  rendered for that position.
\<close>

theorem insertion_settle_iff_shift:
  "(\<forall>i. 1 \<le> i \<and> i < length arr \<longrightarrow>
      (case insertion_state arr i of
         (a, c) \<Rightarrow>
           (case insertion_while (a ! i) (int i - 1) a c of
              (j, a1, c1) \<Rightarrow>
                (\<exists>shifts.
                   c1 = c @ shifts \<and>
                   map (\<lambda>r. snd (snd r)) shifts = map (\<lambda>k. [k, k + 1]) (rev [nat (j + 1)..<i]) \<and>
                   (shifts = [] \<longrightarrow> a1 = a) \<and>
                   insertion_state arr (i + 1) =
                     (a1[nat (j + 1) := a ! i],
                      c1 @ (if shifts \<noteq> [] then [(Insertion, a1[nat (j + 1) := a ! i], [nat (j + 1)])]
                            else [])))))) \<and>
   insertionSort arr = insertion_state arr (length arr)"
proof (intro conjI allI impI)
  fix i assume i: "1 \<le> i \<and> i < length arr"
  obtain a c where st: "insertion_state arr i = (a, c)" by (cases "insertion_state arr i") auto
  obtain j a1 c1 where wh: "insertion_while (a ! i) (int i - 1) a c = (j, a1, c1)"
    by (cases "insertion_while (a ! i) (int i - 1) a c") auto
  from i insertion_state_inv[of i arr] st have ia: "i < length a"
    by (simp add: insertion_inv_def)
  note T = insertion_while_facts(1)[OF ia wh]
  from T have j: "- 1 \<le> j" "j < int i" by (simp_all add: trace_inv_def)
  from T have same: "j = int i - 1 \<longrightarrow> a1 = a" by (simp add: trace_inv_def)
  from T have "\<exists>shifts. c1 = c @ shifts \<and>
      map (\<lambda>r. snd (snd r)) shifts = map (\<lambda>k. [k, k + 1]) (rev [nat (j + 1)..<i])"
    by (simp add: trace_inv_def)
  then obtain shifts where c1: "c1 = c @ shifts"
    and hl: "map (\<lambda>r. snd (snd r)) shifts = map (\<lambda>k. [k, k + 1]) (rev [nat (j + 1)..<i])"
    by blast
  from hl have "length (map (\<lambda>r. snd (snd r)) shifts) = length (map (\<lambda>k. [k, k + 1]) (rev [nat (j + 1)..<i]))"
    by (rule arg_cong)
  then have "length shifts = i - nat (j + 1)" by simp
  then have "0 < length shifts \<longleftrightarrow> nat (j + 1) < i" by simp
  then have ne: "shifts \<noteq> [] \<longleftrightarrow> nat (j + 1) < i" by simp
  with same j have e: "shifts = [] \<longrightarrow> a1 = a" by auto
  have "insertion_state arr (i + 1) = insertion_body i (a, c)"
    using i insertion_state_Suc[of i arr] by (simp add: st)
  also have "\<dots> = (a1[nat (j + 1) := a ! i],
      c1 @ (if shifts \<noteq> [] then [(Insertion, a1[nat (j + 1) := a ! i], [nat (j + 1)])] else []))"
    by (simp add: insertion_body_result[OF ia wh] ne)
  finally have nx: "insertion_state arr (i + 1) = (a1[nat (j + 1) := a ! i],
      c1 @ (if shifts \<noteq> [] then [(Insertion, a1[nat (j + 1) := a ! i], [nat (j + 1)])] else []))" .
  have "\<exists>shifts.
      c1 = c @ shifts \<and>
      map (\<lambda>r. snd (snd r)) shifts = map (\<lambda>k. [k, k + 1]) (rev [nat (j + 1)..<i]) \<and>
      (shifts = [] \<longrightarrow> a1 = a) \<and>
      insertion_state arr (i + 1) =
        (a1[nat (j + 1) := a ! i],
         c1 @ (if shifts \<noteq> [] then [(Insertion, a1[nat (j + 1) := a ! i], [nat (j + 1)])]
               else []))"
    using c1 hl e nx by (intro exI[of _ shifts] conjI)
  then show "case insertion_state arr i of
         (a, c) \<Rightarrow>
           (case insertion_while (a ! i) (int i - 1) a c of
              (j, a1, c1) \<Rightarrow>
                (\<exists>shifts.
                   c1 = c @ shifts \<and>
                   map (\<lambda>r. snd (snd r)) shifts = map (\<lambda>k. [k, k + 1]) (rev [nat (j + 1)..<i]) \<and>
                   (shifts = [] \<longrightarrow> a1 = a) \<and>
                   insertion_state arr (i + 1) =
                     (a1[nat (j + 1) := a ! i],
                      c1 @ (if shifts \<noteq> [] then [(Insertion, a1[nat (j + 1) := a ! i], [nat (j + 1)])]
                            else []))))"
    by (simp only: st wh prod.case)
next
  show "insertionSort arr = insertion_state arr (length arr)" by (rule insertionSort_state)
qed



theorem insertion_settle_iff_shift_witness:
  "(1::nat) \<le> 2 \<and> 2 < length [5, 3, 8, 1 :: int] \<and> (1::nat) \<le> 3 \<and> 3 < length [5, 3, 8, 1 :: int] \<and>
   insertion_state [5, 3, 8, 1] 2 =
     ([3, 5, 8, 1], [(Insertion, [5, 5, 8, 1], [0, 1]), (Insertion, [3, 5, 8, 1], [0])]) \<and>
   insertion_while 8 1 [3, 5, 8, 1] [(Insertion, [5, 5, 8, 1], [0, 1]), (Insertion, [3, 5, 8, 1], [0])] =
     (1, [3, 5, 8, 1], [(Insertion, [5, 5, 8, 1], [0, 1]), (Insertion, [3, 5, 8, 1], [0])]) \<and>
   insertion_state [5, 3, 8, 1] (2 + 1) = insertion_state [5, 3, 8, 1] 2 \<and>
   snd (insertion_state [5, 3, 8, 1] (3 + 1)) =
     snd (insertion_state [5, 3, 8, 1] 3) @
       [(Insertion, [3, 5, 8, 8], [2, 3]), (Insertion, [3, 5, 5, 8], [1, 2]),
        (Insertion, [3, 3, 5, 8], [0, 1]), (Insertion, [1, 3, 5, 8], [0])] \<and>
   insertionSort [5, 3, 8, 1] = insertion_state [5, 3, 8, 1] (length [5, 3, 8, 1 :: int])"
proof -
  have h: "(1::nat) \<le> 2 \<and> 2 < length [5, 3, 8, 1 :: int]" "(1::nat) \<le> 3 \<and> 3 < length [5, 3, 8, 1 :: int]"
    by simp_all
  have e1: "insertion_state [5, 3, 8, 1] 2 =
       ([3, 5, 8, 1], [(Insertion, [5, 5, 8, 1], [0, 1]), (Insertion, [3, 5, 8, 1], [0])])"
    by code_simp
  have e2: "insertion_while 8 1 [3, 5, 8, 1] [(Insertion, [5, 5, 8, 1], [0, 1]), (Insertion, [3, 5, 8, 1], [0])] =
       (1, [3, 5, 8, 1], [(Insertion, [5, 5, 8, 1], [0, 1]), (Insertion, [3, 5, 8, 1], [0])])"
    by code_simp
  have e4: "snd (insertion_state [5, 3, 8, 1] (3 + 1)) =
     snd (insertion_state [5, 3, 8, 1] 3) @
       [(Insertion, [3, 5, 8, 8], [2, 3]), (Insertion, [3, 5, 5, 8], [1, 2]),
        (Insertion, [3, 3, 5, 8], [0, 1]), (Insertion, [1, 3, 5, 8], [0])]"
    by code_simp
  note t = insertion_settle_iff_shift[of "[5, 3, 8, 1]"]
  have k: "[3, 5, 8, 1] ! 2 = (8::int)" "int 2 - 1 = 1" by simp_all
  from t[THEN conjunct1, THEN spec, of 2, THEN mp, OF h(1)]
  have e3: "insertion_state [5, 3, 8, 1] (2 + 1) = insertion_state [5, 3, 8, 1] 2"
    unfolding e1 prod.case k e2 by auto
  from t have e5: "insertionSort [5, 3, 8, 1] = insertion_state [5, 3, 8, 1] (length [5, 3, 8, 1 :: int])"
    by (rule conjunct2)
  from h e1 e2 e3 e4 e5 show ?thesis by (intro conjI) simp_all
qed

text \<open>
  C8: on an array that is already non-decreasing, selection sort and insertion sort make
  no render call and leave the array as it is; the first pass of bubble sort swaps
  nothing (its flag stays false, it renders nothing), so the loop ends after this one
  pass.
\<close>

theorem sorted_input_no_render:
  "sorted arr \<Longrightarrow>
     selectionSort arr = (arr, []) \<and> insertionSort arr = (arr, []) \<and>
     bubble_pass arr = (arr, False, []) \<and> bubbleSort arr = Some (arr, [])"
proof (intro conjI)
  assume s: "sorted arr"
  show "selectionSort arr = (arr, [])"
    using selection_state_sorted[OF s, of "length arr - 1"] by (simp add: selectionSort_state)
  show "insertionSort arr = (arr, [])"
  proof (cases "arr = []")
    case True
    then show ?thesis by (simp add: insertionSort_state insertion_state_def)
  next
    case False
    then show ?thesis
      using insertion_state_sorted[OF s, of "length arr"]
      by (simp add: insertionSort_state Suc_le_eq)
  qed
  show "bubble_pass arr = (arr, False, [])" by (rule bubble_pass_sorted[OF s])
  show "bubbleSort arr = Some (arr, [])" by (rule bubbleSort_sorted_input[OF s])
qed

theorem sorted_input_no_render_witness:
  "sorted [1, 3, 3, 8 :: int] \<and>
   selectionSort [1, 3, 3, 8] = ([1, 3, 3, 8], []) \<and> insertionSort [1, 3, 3, 8] = ([1, 3, 3, 8], []) \<and>
   bubble_pass [1, 3, 3, 8] = ([1, 3, 3, 8], False, []) \<and> bubbleSort [1, 3, 3, 8] = Some ([1, 3, 3, 8], [])"
proof -
  have h: "sorted [1, 3, 3, 8 :: int]" by simp
  from h sorted_input_no_render[OF h] show ?thesis by simp
qed

text \<open>
  C9: bubble sort returns on every array. There is a number \<open>k\<close> of passes that each
  swap something, after which the loop runs once more; the pass after them swaps nothing
  (it leaves the array as it is, its flag is false, it renders nothing), and this is
  where the loop ends: the array returned is the array after those \<open>k\<close> passes.
\<close>

theorem bubble_terminates:
  "\<exists>k arr' rs.
     bubbleSort arr = Some (arr', rs) \<and> arr' = (bubble_pass_array ^^ k) arr \<and>
     (\<forall>j<k. bubble_pass_swapped ((bubble_pass_array ^^ j) arr)) \<and>
     bubble_pass arr' = (arr', False, [])"
proof -
  from bubble_do_run[OF refl, of arr "[]"] obtain k where k:
    "bubble_do (length arr) arr [] \<noteq> None"
    "fst (the (bubble_do (length arr) arr [])) = (bubble_pass_array ^^ k) arr"
    "\<not> bubble_pass_swapped ((bubble_pass_array ^^ k) arr)"
    "\<forall>j<k. bubble_pass_swapped ((bubble_pass_array ^^ j) arr)"
    by blast
  from k(1) obtain arr' rs where r: "bubble_do (length arr) arr [] = Some (arr', rs)" by auto
  with k(2) have a: "arr' = (bubble_pass_array ^^ k) arr" by simp
  with k(3) have "bubble_pass arr' = (arr', False, [])" by (simp add: bubble_pass_no_swap)
  with r a k(4) show ?thesis unfolding bubbleSort_def by blast
qed

theorem bubble_terminates_witness:
  "bubble_pass [2, 1] = ([1, 2], True, [(Bubble, [1, 2], [0, 1])]) \<and>
   bubble_pass [1, 2] = ([1, 2], False, []) \<and>
   bubbleSort [2, 1] = Some ([1, 2], [(Bubble, [1, 2], [0, 1])]) \<and>
   (\<exists>k arr' rs.
     bubbleSort [2, 1] = Some (arr', rs) \<and> arr' = (bubble_pass_array ^^ k) [2, 1] \<and>
     (\<forall>j<k. bubble_pass_swapped ((bubble_pass_array ^^ j) [2, 1])) \<and>
     bubble_pass arr' = (arr', False, []))"
proof -
  have e: "bubble_pass [2, 1] = ([1, 2], True, [(Bubble, [1, 2], [0, 1])])"
    "bubble_pass [1, 2] = ([1, 2], False, [])"
    "bubbleSort [2, 1] = Some ([1, 2], [(Bubble, [1, 2], [0, 1])])"
    by code_simp+
  from e bubble_terminates[of "[2, 1]"] show ?thesis by (intro conjI)
qed

text \<open>
  C7: for integer bounds \<open>min_value \<le> max_value\<close> of magnitude at most \<open>2 ^ 51\<close> and
  random Numbers that are doubles in \<open>[0, 1)\<close>, the generated array has exactly
  \<open>array_size\<close> elements and each of them lies between \<open>min_value\<close> and \<open>max_value\<close>,
  both included, with every operation rounded as the source rounds it; for the size
  \<open>0\<close> it is empty; with the constants of the file it has \<open>20\<close> elements between \<open>5\<close>
  and \<open>95\<close>.
\<close>

theorem generateRandomArray_range:
  "min_value \<le> max_value \<Longrightarrow> - (2 ^ 51) \<le> min_value \<Longrightarrow> max_value \<le> 2 ^ 51 \<Longrightarrow>
   (\<forall>k. unit_double (rnd k)) \<Longrightarrow>
     length (generateRandomArray array_size min_value max_value rnd) = array_size \<and>
     (\<forall>x \<in> set (generateRandomArray array_size min_value max_value rnd). min_value \<le> x \<and> x \<le> max_value) \<and>
     generateRandomArray 0 min_value max_value rnd = [] \<and>
     length (generateRandomArray ARRAY_SIZE MIN_VALUE MAX_VALUE rnd) = 20 \<and>
     (\<forall>x \<in> set (generateRandomArray ARRAY_SIZE MIN_VALUE MAX_VALUE rnd). 5 \<le> x \<and> x \<le> 95)"
proof (intro conjI ballI)
  assume h: "min_value \<le> max_value" "- (2 ^ 51) \<le> min_value" "max_value \<le> 2 ^ 51"
    "\<forall>k. unit_double (rnd k)"
  show "length (generateRandomArray array_size min_value max_value rnd) = array_size"
    by (simp add: generateRandomArray_def)
  show "generateRandomArray 0 min_value max_value rnd = []"
    by (simp add: generateRandomArray_def)
  show "length (generateRandomArray ARRAY_SIZE MIN_VALUE MAX_VALUE rnd) = 20"
    by (simp add: generateRandomArray_def ARRAY_SIZE_def)
  {
    fix x assume "x \<in> set (generateRandomArray array_size min_value max_value rnd)"
    then obtain k where x: "x = double_int (math_floor (to_double
        (mantissa (rnd k) * double_int (double_int (max_value - min_value) + 1)) (exponent (rnd k)))
        + min_value)"
      by (auto simp: generateRandomArray_def)
    from h(4) have "unit_double (rnd k)" by simp
    from generated_element_range[OF this h(1,2,3)] x show "min_value \<le> x" "x \<le> max_value"
      by simp_all
  }
  {
    fix x assume "x \<in> set (generateRandomArray ARRAY_SIZE MIN_VALUE MAX_VALUE rnd)"
    then obtain k where x: "x = double_int (math_floor (to_double
        (mantissa (rnd k) * double_int (double_int (95 - 5) + 1)) (exponent (rnd k))) + 5)"
      by (auto simp: generateRandomArray_def MIN_VALUE_def MAX_VALUE_def)
    from h(4) have r: "unit_double (rnd k)" by simp
    have c: "(5::int) \<le> 95" "- (2 ^ 51) \<le> (5::int)" "(95::int) \<le> 2 ^ 51" by simp_all
    from generated_element_range[OF r c] x show "5 \<le> x" "x \<le> 95" by simp_all
  }
qed

theorem generateRandomArray_range_witness:
  "(5::int) \<le> 95 \<and> - (2 ^ 51) \<le> (5::int) \<and> (95::int) \<le> 2 ^ 51 \<and>
   unit_double (Number 284568108322861 (- 49)) \<and> unit_double (Number 9007199254740991 (- 53)) \<and>
   generateRandomArray 2 5 95
     (\<lambda>k. if k = 0 then Number 284568108322861 (- 49) else Number 9007199254740991 (- 53)) = [51, 95] \<and>
   length (generateRandomArray 2 5 95
     (\<lambda>k. if k = 0 then Number 284568108322861 (- 49) else Number 9007199254740991 (- 53))) = 2 \<and>
   generateRandomArray 0 5 95
     (\<lambda>k. if k = 0 then Number 284568108322861 (- 49) else Number 9007199254740991 (- 53)) = []"
proof -
  have c: "(5::int) \<le> 95" "- (2 ^ 51) \<le> (5::int)" "(95::int) \<le> 2 ^ 51" by simp_all
  have u: "unit_double (Number 284568108322861 (- 49))" "unit_double (Number 9007199254740991 (- 53))"
    by (simp_all add: unit_double_def)
  then have a: "\<forall>k::nat. unit_double (if k = 0 then Number 284568108322861 (- 49) else Number 9007199254740991 (- 53))"
    by simp
  have e: "generateRandomArray 2 5 95
     (\<lambda>k. if k = 0 then Number 284568108322861 (- 49) else Number 9007199254740991 (- 53)) = [51, 95]"
    by code_simp
  from generateRandomArray_range[OF c a, of 2] c u e show ?thesis by simp
qed

text \<open>
  C2: in every state of the page, each variant has at most one run of its sort procedure
  under way, and its flag \<open>isSorting\<close> is true exactly when it has one: the flag is set
  when a start is accepted and cleared when the procedure returns. A click on a start
  button while the flag of its variant is true changes nothing at all: no second run, the
  array, the flags and everything else as before.
\<close>

theorem start_while_sorting_dropped:
  "reachable w \<Longrightarrow>
     length (filter (\<lambda>r. run_type r = type) (suspended w)) \<le> 1 \<and>
     (isSorting (sortStates w type) \<longleftrightarrow> (\<exists>r \<in> set (suspended w). run_type r = type)) \<and>
     (isSorting (sortStates w Bubble) \<longrightarrow> step w (Click bubble_sort_start) = w) \<and>
     (isSorting (sortStates w Selection) \<longrightarrow> step w (Click selection_sort_start) = w) \<and>
     (isSorting (sortStates w Insertion) \<longrightarrow> step w (Click insertion_sort_start) = w)"
proof -
  assume "reachable w"
  then have s: "single_flight w" by (rule reachable_single_flight)
  then have "distinct (map run_type (suspended w))" by (simp add: single_flight_def)
  then have "length (filter (\<lambda>r. run_type r = type) (suspended w)) \<le> 1"
    by (rule distinct_filter_le_1)
  moreover from s have "isSorting (sortStates w type) \<longleftrightarrow> (\<exists>r \<in> set (suspended w). run_type r = type)"
    by (auto simp: single_flight_def)
  ultimately show ?thesis by (simp add: startSort_def)
qed

theorem start_while_sorting_dropped_witness:
  "reachable sample_busy \<and>
   isSorting (sortStates sample_busy Bubble) \<and>
   length (suspended sample_busy) = 1 \<and>
   length (filter (\<lambda>r. run_type r = Bubble) (suspended sample_busy)) \<le> 1 \<and>
   step sample_busy (Click bubble_sort_start) = sample_busy"
proof -
  have b: "isSorting (sortStates sample_busy Bubble)" by code_simp
  have l: "length (suspended sample_busy) = 1" by code_simp
  note t = start_while_sorting_dropped[OF reachable_sample_busy, of Bubble]
  from t b have "step sample_busy (Click bubble_sort_start) = sample_busy" by blast
  with t b l reachable_sample_busy show ?thesis by blast
qed

text \<open>
  C3: \<open>resetArray\<close> on a variant whose flag \<open>isSorting\<close> is true returns the state as
  it is (no render call, nothing changed); on a variant whose flag is false it stores a
  newly generated array, sets \<open>currentStep\<close> to \<open>0\<close> and makes exactly one render call,
  with that array and no highlights. Nothing else changes but the random numbers still
  to come.
\<close>

theorem resetArray_guard:
  "(isSorting (sortStates w type) \<longrightarrow> resetArray type w = w) \<and>
   (\<not> isSorting (sortStates w type) \<longrightarrow>
      resetArray type w =
        w\<lparr>sortStates := (sortStates w)
             (type := \<lparr>array = generateRandomArray ARRAY_SIZE MIN_VALUE MAX_VALUE (math_random w),
                       isSorting = False, currentStep = 0\<rparr>),
          math_random := (\<lambda>k. math_random w (k + ARRAY_SIZE)),
          screen := screen w @ [(type, generateRandomArray ARRAY_SIZE MIN_VALUE MAX_VALUE (math_random w), [])]\<rparr>)"
proof (intro conjI impI)
  assume "isSorting (sortStates w type)"
  then show "resetArray type w = w" by (simp add: resetArray_def)
next
  assume n: "\<not> isSorting (sortStates w type)"
  have "(sortStates w type)\<lparr>array := generateRandomArray ARRAY_SIZE MIN_VALUE MAX_VALUE (math_random w),
                             currentStep := 0\<rparr> =
        \<lparr>array = generateRandomArray ARRAY_SIZE MIN_VALUE MAX_VALUE (math_random w),
         isSorting = False, currentStep = 0\<rparr>"
    using n by (cases "sortStates w type") simp
  note eq = this
  from n show "resetArray type w =
        w\<lparr>sortStates := (sortStates w)
             (type := \<lparr>array = generateRandomArray ARRAY_SIZE MIN_VALUE MAX_VALUE (math_random w),
                       isSorting = False, currentStep = 0\<rparr>),
          math_random := (\<lambda>k. math_random w (k + ARRAY_SIZE)),
          screen := screen w @ [(type, generateRandomArray ARRAY_SIZE MIN_VALUE MAX_VALUE (math_random w), [])]\<rparr>"
    by (simp only: resetArray_def Let_def createBars_def eq if_False)
qed

theorem resetArray_guard_witness:
  "isSorting (sortStates sample_busy Bubble) \<and>
   resetArray Bubble sample_busy = sample_busy \<and>
   \<not> isSorting (sortStates sample_busy Selection) \<and>
   sortStates (resetArray Selection sample_busy) Selection =
     \<lparr>array = replicate 20 5, isSorting = False, currentStep = 0\<rparr> \<and>
   screen (resetArray Selection sample_busy) =
     screen sample_busy @ [(Selection, replicate 20 5, [])]"
proof -
  have b: "isSorting (sortStates sample_busy Bubble)" by code_simp
  have n: "\<not> isSorting (sortStates sample_busy Selection)" by code_simp
  have g: "generateRandomArray ARRAY_SIZE MIN_VALUE MAX_VALUE (math_random sample_busy) = replicate 20 5"
    by code_simp
  from resetArray_guard[of sample_busy Bubble] b
  have r1: "resetArray Bubble sample_busy = sample_busy" by blast
  from resetArray_guard[of sample_busy Selection] n
  have r2: "resetArray Selection sample_busy =
        sample_busy\<lparr>sortStates := (sortStates sample_busy)
             (Selection := \<lparr>array = generateRandomArray ARRAY_SIZE MIN_VALUE MAX_VALUE (math_random sample_busy),
                       isSorting = False, currentStep = 0\<rparr>),
          math_random := (\<lambda>k. math_random sample_busy (k + ARRAY_SIZE)),
          screen := screen sample_busy @
            [(Selection, generateRandomArray ARRAY_SIZE MIN_VALUE MAX_VALUE (math_random sample_busy), [])]\<rparr>"
    by blast
  show ?thesis unfolding r2 g using b n r1 by simp
qed

text \<open>
  C10: in every state of the page and for every variant, \<open>currentStep\<close> is \<open>0\<close>: it
  starts at \<open>0\<close>, \<open>resetArray\<close> writes \<open>0\<close>, and nothing else writes it.
\<close>

theorem currentStep_never_advances:
  "reachable w \<Longrightarrow> currentStep (sortStates w type) = 0"
proof -
  assume "reachable w"
  then have "currentStep_zero w"
    by (induction rule: reachable.induct)
       (simp_all add: currentStep_zero_initialize currentStep_zero_initial currentStep_zero_step)
  then show ?thesis by (simp add: currentStep_zero_def)
qed

theorem currentStep_never_advances_witness:
  "reachable (step sample_busy (Timer 0)) \<and>
   currentStep (sortStates (step sample_busy (Timer 0)) Bubble) = 0"
proof -
  have r: "reachable (step sample_busy (Timer 0))"
    using reachable_sample_busy by (rule reachable.event)
  from r currentStep_never_advances[OF r, of Bubble] show ?thesis by simp
qed

end
